theory Spec2Isabelle
  imports Main "HOL-Library.Sublist" "HOL-Library.Code_Target_Nat"
begin

section \<open>JavaScript strings\<close>

text \<open>
  A JavaScript string is a sequence of UTF-16 code units; offsets (\<open>match.index\<close>,
  \<open>lastIndex\<close>, the arguments of \<open>substring\<close>) count code units. A code unit is
  modelled by its numeric value. The texts of the program itself are ASCII and are written
  as Isabelle strings, converted by \<open>js\<close>.
\<close>

type_synonym jsstring = "nat list"

definition js :: "string \<Rightarrow> jsstring" where
  "js s = map of_char s"

text \<open>\<open>s.substring(a, b)\<close>: both arguments are clamped to the length and swapped if needed.\<close>

definition substring :: "jsstring \<Rightarrow> nat \<Rightarrow> nat \<Rightarrow> jsstring" where
  "substring s a b =
     (let a' = min a (length s); b' = min b (length s);
          lo = min a' b'; hi = max a' b'
      in take (hi - lo) (drop lo s))"

text \<open>\<open>s.split("\n")\<close>: the pieces between line feeds; the empty string gives one empty piece.\<close>

fun split_nl :: "jsstring \<Rightarrow> jsstring list" where
  "split_nl [] = [[]]"
| "split_nl (c # cs) =
     (if c = 10 then [] # split_nl cs
      else (case split_nl cs of l # ls \<Rightarrow> (c # l) # ls | [] \<Rightarrow> [[c]]))"

text \<open>\<open>lines.join("\n")\<close>.\<close>

fun join_nl :: "jsstring list \<Rightarrow> jsstring" where
  "join_nl [] = []"
| "join_nl [l] = l"
| "join_nl (l # ls) = l @ 10 # join_nl ls"

text \<open>\<open>s.endsWith(t)\<close>.\<close>

definition endsWith :: "jsstring \<Rightarrow> jsstring \<Rightarrow> bool" where
  "endsWith s t = (length t \<le> length s \<and> drop (length s - length t) s = t)"

text \<open>Decimal rendering of a non-negative integer (\<open>n.toString()\<close>, \<open>"" + n\<close>).\<close>

fun digits10 :: "nat \<Rightarrow> jsstring" where
  "digits10 n = (if n < 10 then [48 + n] else digits10 (n div 10) @ [48 + n mod 10])"

declare digits10.simps [simp del]

text \<open>\<open>s.padStart(n)\<close>: pads with spaces on the left up to length \<open>n\<close>.\<close>

definition padStart :: "nat \<Rightarrow> jsstring \<Rightarrow> jsstring" where
  "padStart n s = replicate (n - length s) 32 @ s"

section \<open>Regular expressions\<close>

text \<open>
  The fragment of ECMAScript regular expressions that the program's literals use.
  A capturing group only records a capture, which the program never reads, so groups are
  not represented. \<open>ChrI\<close> is a pattern character of a literal with the \<open>i\<close> flag.
\<close>

datatype cset =
    OneOf string
  | NoneOf string
  | Range char char
  | Digit
  | Space

datatype regex =
    Chr char
  | ChrI char
  | Cls cset
  | Eps
  | Seq regex regex
  | Alt regex regex
  | Opt regex
  | Star regex
  | WordB

text \<open>\<open>\s\<close>: WhiteSpace and LineTerminator of the language specification.\<close>

definition is_space :: "nat \<Rightarrow> bool" where
  "is_space x =
     (x = 9 \<or> x = 10 \<or> x = 11 \<or> x = 12 \<or> x = 13 \<or> x = 32 \<or> x = 160 \<or> x = 5760
      \<or> (8192 \<le> x \<and> x \<le> 8202) \<or> x = 8232 \<or> x = 8233 \<or> x = 8239 \<or> x = 8287
      \<or> x = 12288 \<or> x = 65279)"

definition is_digit :: "nat \<Rightarrow> bool" where
  "is_digit x = (48 \<le> x \<and> x \<le> 57)"

text \<open>\<open>\w\<close>, for the word boundary.\<close>

definition is_word_char :: "nat \<Rightarrow> bool" where
  "is_word_char x =
     ((97 \<le> x \<and> x \<le> 122) \<or> (65 \<le> x \<and> x \<le> 90) \<or> (48 \<le> x \<and> x \<le> 57) \<or> x = 95)"

fun in_cset :: "cset \<Rightarrow> nat \<Rightarrow> bool" where
  "in_cset (OneOf cs) x = (x \<in> set (js cs))"
| "in_cset (NoneOf cs) x = (x \<notin> set (js cs))"
| "in_cset (Range a b) x = (of_char a \<le> x \<and> x \<le> of_char b)"
| "in_cset Digit x = is_digit x"
| "in_cset Space x = is_space x"

text \<open>
  Canonicalize of a literal without the \<open>u\<close> flag: the upper-case mapping, except that a
  code unit from 128 on is never mapped below 128. All pattern characters of the program
  are ASCII, so only the ASCII part of the mapping decides a comparison with them, and a
  code unit from 128 on is left as it is.
\<close>

definition canonicalize :: "nat \<Rightarrow> nat" where
  "canonicalize x = (if 97 \<le> x \<and> x \<le> 122 then x - 32 else x)"

text \<open>IsWordChar at an index; the positions before the start and at the end are no word characters.\<close>

definition word_at :: "jsstring \<Rightarrow> nat \<Rightarrow> bool" where
  "word_at s i = (i < length s \<and> is_word_char (s ! i))"

definition word_before :: "jsstring \<Rightarrow> nat \<Rightarrow> bool" where
  "word_before s i = (0 < i \<and> word_at s (i - 1))"

text \<open>
  The greedy \<open>*\<close>: one more iteration that consumed something, in the order the body
  offers its results, and only then no iteration. Every iteration consumes at least one
  code unit, so there are at most \<open>length s - i\<close> of them; that number is the first
  argument.
\<close>

fun star_from :: "(nat \<Rightarrow> nat list) \<Rightarrow> nat \<Rightarrow> nat \<Rightarrow> nat list" where
  "star_from step 0 i = [i]"
| "star_from step (Suc n) i =
     concat (map (\<lambda>j. if j = i then [] else star_from step n j) (step i)) @ [i]"

text \<open>
  The backtracking matcher: \<open>ends r s i\<close> lists the end indices of the matches of \<open>r\<close> in
  \<open>s\<close> that start at \<open>i\<close>, in the order in which backtracking tries them. The match the
  engine reports is the first one.
\<close>

fun ends :: "regex \<Rightarrow> jsstring \<Rightarrow> nat \<Rightarrow> nat list" where
  "ends (Chr c) s i = (if i < length s \<and> s ! i = of_char c then [Suc i] else [])"
| "ends (ChrI c) s i =
     (if i < length s \<and> canonicalize (s ! i) = canonicalize (of_char c) then [Suc i] else [])"
| "ends (Cls cs) s i = (if i < length s \<and> in_cset cs (s ! i) then [Suc i] else [])"
| "ends Eps s i = [i]"
| "ends (Seq r1 r2) s i = concat (map (ends r2 s) (ends r1 s i))"
| "ends (Alt r1 r2) s i = ends r1 s i @ ends r2 s i"
| "ends (Opt r) s i = filter (\<lambda>j. j \<noteq> i) (ends r s i) @ [i]"
| "ends (Star r) s i = star_from (ends r s) (length s - i) i"
| "ends WordB s i = (if word_at s i \<noteq> word_before s i then [i] else [])"

text \<open>Derived forms: a literal text, \<open>r+\<close>, \<open>r{1,2}\<close>, \<open>r{4,5}\<close>, \<open>\s*\<close>, a sequence.\<close>

fun lits :: "string \<Rightarrow> regex" where
  "lits [] = Eps"
| "lits [c] = Chr c"
| "lits (c # cs) = Seq (Chr c) (lits cs)"

fun litsI :: "string \<Rightarrow> regex" where
  "litsI [] = Eps"
| "litsI [c] = ChrI c"
| "litsI (c # cs) = Seq (ChrI c) (litsI cs)"

fun seqs :: "regex list \<Rightarrow> regex" where
  "seqs [] = Eps"
| "seqs [r] = r"
| "seqs (r # rs) = Seq r (seqs rs)"

definition Plus :: "regex \<Rightarrow> regex" where
  "Plus r = Seq r (Star r)"

definition Rep12 :: "regex \<Rightarrow> regex" where
  "Rep12 r = Seq r (Opt r)"

definition Rep45 :: "regex \<Rightarrow> regex" where
  "Rep45 r = Seq r (Seq r (Seq r (Seq r (Opt r))))"

definition ws :: regex where
  "ws = Star (Cls Space)"

text \<open>
  The search of \<open>RegExpBuiltinExec\<close>: from index \<open>i\<close> on, the first index at which the
  pattern matches, with the end of the match found there.
\<close>

function search :: "regex \<Rightarrow> jsstring \<Rightarrow> nat \<Rightarrow> (nat \<times> nat) option" where
  "search r s i =
     (if length s < i then None
      else (case ends r s i of [] \<Rightarrow> search r s (Suc i) | e # _ \<Rightarrow> Some (i, e)))"
  by pat_completeness auto
termination
  by (relation "measure (\<lambda>(r, s, i). Suc (length s) - i)") auto

declare search.simps [simp del]

text \<open>\<open>regex.test(s)\<close> for a literal without the \<open>g\<close> flag: the search starts at 0.\<close>

definition regex_test :: "regex \<Rightarrow> jsstring \<Rightarrow> bool" where
  "regex_test r s = (search r s 0 \<noteq> None)"

text \<open>
  A regular expression object with the \<open>g\<close> flag: the pattern and the mutable
  \<open>lastIndex\<close>. \<open>exec\<close> searches from \<open>lastIndex\<close>; a match moves \<open>lastIndex\<close> to its end,
  a failure sets it to 0. The result is the match (start index and matched text) and the
  object after the call.
\<close>

record RegExp =
  source :: regex
  lastIndex :: nat

record RegExpMatch =
  index :: nat
  matched :: jsstring

definition exec :: "RegExp \<Rightarrow> jsstring \<Rightarrow> RegExpMatch option \<times> RegExp" where
  "exec re s =
     (case search (source re) s (lastIndex re) of
        None \<Rightarrow> (None, re\<lparr>lastIndex := 0\<rparr>)
      | Some (i, e) \<Rightarrow>
          (Some \<lparr>index = i, matched = take (e - i) (drop i s)\<rparr>, re\<lparr>lastIndex := e\<rparr>))"

section \<open>The pattern catalog\<close>

datatype Severity = High | Medium | Low

record FlakyPattern =
  name :: jsstring
  regex :: RegExp
  severity :: Severity
  risk :: jsstring
  fix_text :: jsstring

text \<open>
  A path is the list of its components; \<open>path.join(dir, entry.name)\<close> appends the name
  of a directory entry, and \<open>path.basename\<close> is the last component.
\<close>

type_synonym path = "jsstring list"

record Detection =
  file_path :: path
  line :: nat
  pattern :: jsstring
  matchedText :: jsstring
  severity :: Severity
  risk :: jsstring
  fix_text :: jsstring
  context_lines :: "jsstring list"


text \<open>The catalog \<open>FLAKY_PATTERNS\<close>; every regular expression object starts with \<open>lastIndex\<close> 0.\<close>

definition global :: "regex \<Rightarrow> RegExp" where
  "global r = \<lparr>source = r, lastIndex = 0\<rparr>"

definition FLAKY_PATTERNS :: "FlakyPattern list" where
  "FLAKY_PATTERNS =
    [\<lparr>name = js ''1-second TTL'',
      regex = global (seqs [lits ''ttl'', Opt (Cls (OneOf ''Ss'')), lits ''econd'',
                Opt (Chr CHR ''s''), ws, Cls (OneOf ''=:''), ws, Chr CHR ''1'', WordB]),
      severity = High,
      risk = js ''1-second TTL causes second-boundary race conditions. Tests may pass or fail depending on when they cross the second boundary.'',
      fix_text = js ''Use vi.useFakeTimers() to control time, or increase TTL to 5+ seconds for real-time tests.''\<rparr>,
     \<lparr>name = js ''Second truncation'',
      regex = global (seqs [lits ''Math.floor'', ws, Chr CHR ''('', ws, lits ''Date.now'', ws,
                Chr CHR ''('', ws, Chr CHR '')'', ws, Chr CHR ''/'', ws, lits ''1000'', ws,
                Chr CHR '')'']),
      severity = High,
      risk = js ''Second truncation creates edge cases at second boundaries. A test starting at X.999s may see different values than expected.'',
      fix_text = js ''Mock Date.now() with vi.useFakeTimers() and vi.setSystemTime() for deterministic timestamps.''\<rparr>,
     \<lparr>name = js ''Very short setTimeout'',
      regex = global (seqs [lits ''setTimeout'', ws, Chr CHR ''('', Plus (Cls (NoneOf '','')),
                Chr CHR '','', ws, Rep12 (Cls Digit), ws, Chr CHR '')'']),
      severity = High,
      risk = js ''Timeouts under 100ms are unreliable across different machines and CI environments.'',
      fix_text = js ''Use vi.useFakeTimers() and vi.advanceTimersByTime() instead of real timeouts.''\<rparr>,
     \<lparr>name = js ''Short delay/sleep'',
      regex = global (seqs [Alt (lits ''delay'') (Alt (lits ''sleep'') (lits ''wait'')), ws,
                Chr CHR ''('', ws, Rep12 (Cls Digit), ws, Chr CHR '')'']),
      severity = High,
      risk = js ''Very short delays are unreliable and cause race conditions.'',
      fix_text = js ''Use vi.useFakeTimers() or await specific conditions instead of arbitrary delays.''\<rparr>,
     \<lparr>name = js ''Unmocked Date.now()'',
      regex = global (seqs [lits ''Date.now'', ws, Chr CHR ''('', ws, Chr CHR '')'']),
      severity = Medium,
      risk = js ''Real time in tests causes non-determinism. Tests may fail near second/minute boundaries.'',
      fix_text = js ''Mock with vi.useFakeTimers() and vi.setSystemTime(new Date('2024-01-01T12:00:00Z')).''\<rparr>,
     \<lparr>name = js ''Unmocked new Date()'',
      regex = global (seqs [lits ''new'', Plus (Cls Space), lits ''Date'', ws, Chr CHR ''('', ws,
                Chr CHR '')'']),
      severity = Medium,
      risk = js ''Real date creates non-deterministic behavior. Timezone and time-of-day can affect results.'',
      fix_text = js ''Mock with vi.useFakeTimers() or pass explicit date values to constructors.''\<rparr>,
     \<lparr>name = js ''Low timeout value'',
      regex = global (seqs [lits ''timeout'', ws, Cls (OneOf ''=:''), ws,
                Cls (Range CHR ''1'' CHR ''9''), Opt (Chr CHR ''0''), WordB]),
      severity = Medium,
      risk = js ''Low timeout values (under 100ms) cause race conditions in CI environments with variable load.'',
      fix_text = js ''Increase timeout to 1000+ ms or use vi.useFakeTimers() for timeout-dependent logic.''\<rparr>,
     \<lparr>name = js ''setInterval without cleanup'',
      regex = global (seqs [lits ''setInterval'', ws, Chr CHR ''('', Plus (Cls (NoneOf ''-'')),
                Chr CHR '')'']),
      severity = Medium,
      risk = js ''Intervals without cleanup can leak between tests and cause interference.'',
      fix_text = js ''Store interval ID and call clearInterval in afterEach/cleanup, or use vi.useFakeTimers().''\<rparr>,
     \<lparr>name = js ''Promise.race without timeout'',
      regex = global (seqs [lits ''Promise.race'', ws, Chr CHR ''('', ws, Chr CHR ''['',
                Star (Cls (NoneOf '']'')), Chr CHR '']'', ws, Chr CHR '')'']),
      severity = Medium,
      risk = js ''Promise.race can hang indefinitely if no timeout promise is included.'',
      fix_text = js ''Always include a timeout promise: Promise.race([operation(), timeout(5000)]).''\<rparr>,
     \<lparr>name = js ''Unseeded Math.random()'',
      regex = global (seqs [lits ''Math.random'', ws, Chr CHR ''('', ws, Chr CHR '')'']),
      severity = Low,
      risk = js ''Random values without seeding cause non-reproducible test behavior.'',
      fix_text = js ''Use a seeded random generator or mock Math.random with vi.spyOn(Math, 'random').''\<rparr>,
     \<lparr>name = js ''process.nextTick in tests'',
      regex = global (seqs [lits ''process.nextTick'', ws, Chr CHR ''('']),
      severity = Low,
      risk = js ''Timing-dependent assertions using nextTick can be order-dependent.'',
      fix_text = js ''Use await flushPromises() or explicit async/await patterns.''\<rparr>,
     \<lparr>name = js ''Hardcoded port numbers'',
      regex = global (seqs [Alt (lits ''port'') (lits ''PORT''), ws, Cls (OneOf ''=:''), ws,
                Rep45 (Cls Digit), WordB]),
      severity = Low,
      risk = js ''Hardcoded ports can conflict when tests run in parallel.'',
      fix_text = js ''Use port 0 for random available port, or use getPort() utility.''\<rparr>,
     \<lparr>name = js ''File system temp paths'',
      regex = global (seqs [Cls (OneOf [CHR 0x27, CHR 0x60, CHR 0x22]), lits ''/tmp/'',
                Plus (Cls (NoneOf [CHR 0x27, CHR 0x60, CHR 0x22])),
                Cls (OneOf [CHR 0x27, CHR 0x60, CHR 0x22])]),
      severity = Low,
      risk = js ''Shared temp paths can conflict between parallel test runs.'',
      fix_text = js ''Use os.tmpdir() with unique subdirectories, or use tmp-promise package.''\<rparr>]"

section \<open>The scanner\<close>

text \<open>\<open>lines.slice(start, end)\<close> for indices that are not negative.\<close>

definition slice :: "'a list \<Rightarrow> nat \<Rightarrow> nat \<Rightarrow> 'a list" where
  "slice xs start end' = take (end' - start) (drop start xs)"

definition extractContext :: "jsstring list \<Rightarrow> nat \<Rightarrow> nat \<Rightarrow> jsstring list" where
  "extractContext lines lineIndex contextSize =
     (let start = nat (max 0 (int lineIndex - int contextSize));
          end' = min (length lines) (lineIndex + contextSize + 1)
      in map (\<lambda>(idx, line').
                let actualLineNum = start + idx + 1;
                    marker = (if actualLineNum = lineIndex + 1 then js ''>'' else js '' '')
                in marker @ js '' '' @ padStart 4 (digits10 actualLineNum) @ js '': '' @ line')
             (enumerate 0 (slice lines start end')))"

definition mockPatterns :: "regex list" where
  "mockPatterns =
     [lits ''vi.useFakeTimers'',
      lits ''jest.useFakeTimers'',
      lits ''vi.setSystemTime'',
      lits ''jest.setSystemTime'',
      seqs [lits ''vi.spyOn'', ws, Chr CHR ''('', ws, lits ''Date''],
      seqs [lits ''jest.spyOn'', ws, Chr CHR ''('', ws, lits ''Date''],
      litsI ''mockDate'',
      lits ''MockDate'']"

definition isLikelyMocked :: "jsstring \<Rightarrow> nat \<Rightarrow> bool" where
  "isLikelyMocked content matchIndex =
     (let beforeContent = substring content (nat (max 0 (int matchIndex - 2000))) matchIndex
      in list_ex (\<lambda>pattern. regex_test pattern beforeContent) mockPatterns)"

text \<open>The detection that \<open>scanFile\<close> pushes for an accepted match.\<close>

definition makeDetection ::
    "path \<Rightarrow> jsstring \<Rightarrow> jsstring list \<Rightarrow> FlakyPattern \<Rightarrow> RegExpMatch \<Rightarrow> Detection" where
  "makeDetection filePath content lines pat m =
     (let beforeMatch = substring content 0 (index m);
          lineNumber = length (split_nl beforeMatch);
          lineIndex = lineNumber - 1;
          context = extractContext lines lineIndex 3
      in \<lparr>file_path = filePath, line = lineNumber, pattern = name pat,
          matchedText = matched m, severity = FlakyPattern.severity pat,
          risk = FlakyPattern.risk pat, fix_text = FlakyPattern.fix_text pat,
          context_lines = context\<rparr>)"

text \<open>
  The \<open>while\<close> loop of \<open>scanFile\<close> for one pattern. It runs as long as \<open>exec\<close> finds a
  match; a run that never ends has the value \<open>None\<close>. The result is the detection list
  and the pattern with its regular expression object as the loop leaves it.
\<close>

partial_function (option) scanPattern ::
    "path \<Rightarrow> jsstring \<Rightarrow> jsstring list \<Rightarrow> FlakyPattern \<Rightarrow> Detection list
       \<Rightarrow> (Detection list \<times> FlakyPattern) option" where
  "scanPattern filePath content lines pat detections =
     (case exec (regex pat) content of
        (None, re) \<Rightarrow> Some (detections, pat\<lparr>regex := re\<rparr>)
      | (Some m, re) \<Rightarrow>
          if FlakyPattern.severity pat \<noteq> High \<and> isLikelyMocked content (index m)
          then scanPattern filePath content lines (pat\<lparr>regex := re\<rparr>) detections
          else scanPattern filePath content lines (pat\<lparr>regex := re\<rparr>)
                 (detections @ [makeDetection filePath content lines pat m]))"

text \<open>The \<open>for\<close> loop over the catalog: \<open>lastIndex\<close> is reset, then the pattern's loop runs.\<close>

fun scanPatterns ::
    "path \<Rightarrow> jsstring \<Rightarrow> jsstring list \<Rightarrow> FlakyPattern list \<Rightarrow> Detection list
       \<Rightarrow> (Detection list \<times> FlakyPattern list) option" where
  "scanPatterns filePath content lines [] detections = Some (detections, [])"
| "scanPatterns filePath content lines (pat # pats) detections =
     (case scanPattern filePath content lines
             (pat\<lparr>regex := (regex pat)\<lparr>lastIndex := 0\<rparr>\<rparr>) detections of
        None \<Rightarrow> None
      | Some (detections', pat') \<Rightarrow>
          (case scanPatterns filePath content lines pats detections' of
             None \<Rightarrow> None
           | Some (detections'', pats') \<Rightarrow> Some (detections'', pat' # pats')))"

section \<open>The file system\<close>

text \<open>
  A snapshot of the file system: a regular file with its decoded content (\<open>None\<close> when
  reading it fails), a directory with its entries in the order \<open>readdirSync\<close> lists them
  (\<open>None\<close> when listing it fails), or anything else (a symbolic link, a socket), for which
  both \<open>isFile()\<close> and \<open>isDirectory()\<close> of the entry are false.
\<close>

datatype fsnode =
    File "jsstring option"
  | Dir "(jsstring \<times> fsnode) list option"
  | Other

fun lookup :: "fsnode \<Rightarrow> path \<Rightarrow> fsnode option" where
  "lookup n [] = Some n"
| "lookup (Dir (Some entries)) (c # cs) =
     (case map_of entries c of None \<Rightarrow> None | Some n \<Rightarrow> lookup n cs)"
| "lookup _ (c # cs) = None"

fun isDirectory :: "fsnode \<Rightarrow> bool" where
  "isDirectory (Dir _) = True"
| "isDirectory _ = False"

fun isFile :: "fsnode \<Rightarrow> bool" where
  "isFile (File _) = True"
| "isFile _ = False"

text \<open>\<open>fs.readFileSync(filePath, "utf-8")\<close>; \<open>None\<close> when it throws.\<close>

definition readFileSync :: "fsnode \<Rightarrow> path \<Rightarrow> jsstring option" where
  "readFileSync fs filePath =
     (case lookup fs filePath of Some (File (Some content)) \<Rightarrow> Some content | _ \<Rightarrow> None)"

text \<open>A path as a string: the components joined by the separator.\<close>

fun path_str :: "path \<Rightarrow> jsstring" where
  "path_str [] = []"
| "path_str [c] = c"
| "path_str (c # cs) = c @ 47 # path_str cs"

definition basename :: "path \<Rightarrow> jsstring" where
  "basename p = (if p = [] then [] else last p)"

text \<open>
  What the program can change outside its local variables: the regular expression objects
  of the catalog, and the two output channels (one entry for each call of \<open>console.log\<close>
  and of \<open>console.error\<close>).
\<close>

record World =
  patterns :: "FlakyPattern list"
  stdout :: "jsstring list"
  stderr :: "jsstring list"

text \<open>
  \<open>scanFile\<close>: the \<open>catch\<close> block turns a failed read into a diagnostic line and no
  detections. Of the diagnostic line only the first argument of \<open>console.error\<close> is
  recorded: how the error object is printed is the platform's business.
\<close>

definition scanFile :: "fsnode \<Rightarrow> path \<Rightarrow> World \<Rightarrow> (Detection list \<times> World) option" where
  "scanFile fs filePath w =
     (case readFileSync fs filePath of
        None \<Rightarrow> Some ([], w\<lparr>stderr := stderr w @ [js ''Error scanning '' @ path_str filePath @ js '':'']\<rparr>)
      | Some content \<Rightarrow>
          (case scanPatterns filePath content (split_nl content) (patterns w) [] of
             None \<Rightarrow> None
           | Some (detections, pats) \<Rightarrow> Some (detections, w\<lparr>patterns := pats\<rparr>)))"

section \<open>The file discoverer\<close>

datatype error = ReaddirFailed path

definition ignoreList :: "jsstring list" where
  "ignoreList = [js ''node_modules'', js ''dist'', js ''build'', js ''.git'', js ''coverage'']"

definition isTestFileName :: "jsstring \<Rightarrow> bool" where
  "isTestFileName nm =
     (endsWith nm (js ''.test.ts'') \<or> endsWith nm (js ''.spec.ts'')
      \<or> endsWith nm (js ''.test.tsx'') \<or> endsWith nm (js ''.spec.tsx'')
      \<or> endsWith nm (js ''.test.js'') \<or> endsWith nm (js ''.spec.js''))"

text \<open>
  \<open>findTestFiles(dir, files)\<close>. The first argument is what the file system has at \<open>dir\<close>:
  nothing (\<open>existsSync\<close> is false), or a node; \<open>readdirSync\<close> throws unless the node is a
  directory that can be listed. \<open>forEntries\<close> is the \<open>for\<close> loop over the entries; the
  directory found at \<open>fullPath\<close> is the entry's node.
\<close>

fun findTestFiles :: "fsnode option \<Rightarrow> path \<Rightarrow> path list \<Rightarrow> error + path list"
  and forEntries :: "(jsstring \<times> fsnode) list \<Rightarrow> path \<Rightarrow> path list \<Rightarrow> error + path list" where
  "findTestFiles None dir files = Inr files"
| "findTestFiles (Some (Dir (Some entries))) dir files = forEntries entries dir files"
| "findTestFiles (Some _) dir files = Inl (ReaddirFailed dir)"
| "forEntries [] dir files = Inr files"
| "forEntries ((nm, node) # rest) dir files =
     (let fullPath = dir @ [nm]
      in if isDirectory node then
           (if nm \<in> set ignoreList then forEntries rest dir files
            else (case findTestFiles (Some node) fullPath files of
                    Inl e \<Rightarrow> Inl e
                  | Inr files' \<Rightarrow> forEntries rest dir files'))
         else if isFile node \<and> isTestFileName nm then forEntries rest dir (files @ [fullPath])
         else forEntries rest dir files)"

section \<open>The aggregator\<close>

record BySeverity =
  high :: "Detection list"
  medium :: "Detection list"
  low :: "Detection list"

text \<open>A \<open>Map\<close> keeps its keys in insertion order; \<open>set\<close> on a present key replaces the value in place.\<close>

fun mapSet :: "'k \<Rightarrow> 'v \<Rightarrow> ('k \<times> 'v) list \<Rightarrow> ('k \<times> 'v) list" where
  "mapSet k v [] = [(k, v)]"
| "mapSet k v ((k', v') # m) = (if k' = k then (k, v) # m else (k', v') # mapSet k v m)"

record ScanResult =
  scannedFiles :: nat
  totalDetections :: nat
  detections :: "Detection list"
  byFile :: "(path \<times> Detection list) list"
  bySeverity :: BySeverity

text \<open>The \<open>for\<close> loop of \<open>scanDirectory\<close> over the test files.\<close>

fun scanFiles ::
    "fsnode \<Rightarrow> path list \<Rightarrow> Detection list \<Rightarrow> (path \<times> Detection list) list \<Rightarrow> World
       \<Rightarrow> ((Detection list \<times> (path \<times> Detection list) list) \<times> World) option" where
  "scanFiles fs [] allDetections byFile' w = Some ((allDetections, byFile'), w)"
| "scanFiles fs (file' # rest) allDetections byFile' w =
     (case scanFile fs file' w of
        None \<Rightarrow> None
      | Some (fileDetections, w') \<Rightarrow>
          if length fileDetections > 0
          then scanFiles fs rest (allDetections @ fileDetections)
                 (mapSet file' fileDetections byFile') w'
          else scanFiles fs rest allDetections byFile' w')"

text \<open>
  \<open>scanDirectory\<close>: \<open>None\<close> if it does not return, \<open>Inl\<close> if \<open>findTestFiles\<close> throws.
\<close>

definition scanDirectory :: "fsnode \<Rightarrow> path \<Rightarrow> World \<Rightarrow> ((error + ScanResult) \<times> World) option" where
  "scanDirectory fs dir w =
     (case findTestFiles (lookup fs dir) dir [] of
        Inl e \<Rightarrow> Some (Inl e, w)
      | Inr testFiles \<Rightarrow>
          (case scanFiles fs testFiles [] [] w of
             None \<Rightarrow> None
           | Some ((allDetections, byFile'), w') \<Rightarrow>
               Some (Inr \<lparr>scannedFiles = length testFiles,
                          totalDetections = length allDetections,
                          detections = allDetections,
                          byFile = byFile',
                          bySeverity =
                            \<lparr>high = filter (\<lambda>d. Detection.severity d = High) allDetections,
                             medium = filter (\<lambda>d. Detection.severity d = Medium) allDetections,
                             low = filter (\<lambda>d. Detection.severity d = Low) allDetections\<rparr>\<rparr>,
                     w')))"

section \<open>The reporters\<close>

text \<open>
  \<open>formatAsMarkdown\<close> pushes lines and joins them with line feeds. The parts of the report
  for a result with detections are named here one by one, in the order they are pushed.
\<close>

definition mdHeader :: "ScanResult \<Rightarrow> jsstring list" where
  "mdHeader result =
     [js ''## Flaky Test Analysis\<newline>'',
      js ''Scanned **'' @ digits10 (scannedFiles result) @ js ''** test files, found **''
        @ digits10 (totalDetections result) @ js ''** potential flaky patterns.\<newline>'']"

definition mdSummary :: "ScanResult \<Rightarrow> jsstring list" where
  "mdSummary result =
     [js ''### Summary\<newline>'',
      js ''| Severity | Count |'',
      js ''|----------|-------|'',
      js ''| High | '' @ digits10 (length (high (bySeverity result))) @ js '' |'',
      js ''| Medium | '' @ digits10 (length (medium (bySeverity result))) @ js '' |'',
      js ''| Low | '' @ digits10 (length (low (bySeverity result))) @ js '' |'',
      []]"

definition mdHigh :: "ScanResult \<Rightarrow> jsstring list" where
  "mdHigh result =
     (if length (high (bySeverity result)) > 0
      then js ''### High Risk\<newline>'' #
           concat (map (\<lambda>detection.
             [js ''**'' @ basename (file_path detection) @ js '':'' @ digits10 (line detection) @ js ''**'',
              js ''- Pattern: `'' @ matchedText detection @ js ''`'',
              js ''- Risk: '' @ Detection.risk detection,
              js ''- Fix: '' @ Detection.fix_text detection,
              js ''\<newline>```typescript'',
              join_nl (context_lines detection),
              js ''```\<newline>'']) (high (bySeverity result)))
      else [])"

definition mdMedium :: "ScanResult \<Rightarrow> jsstring list" where
  "mdMedium result =
     (if length (medium (bySeverity result)) > 0
      then js ''### Medium Risk\<newline>'' #
           concat (map (\<lambda>detection.
             [js ''**'' @ basename (file_path detection) @ js '':'' @ digits10 (line detection) @ js ''**'',
              js ''- Pattern: `'' @ matchedText detection @ js ''`'',
              js ''- Risk: '' @ Detection.risk detection,
              js ''- Fix: '' @ Detection.fix_text detection @ js ''\<newline>'']) (medium (bySeverity result)))
      else [])"

definition mdLow :: "ScanResult \<Rightarrow> jsstring list" where
  "mdLow result =
     (if length (low (bySeverity result)) > 0
      then [js ''### Low Risk\<newline>'',
            js ''<details><summary>Show '' @ digits10 (length (low (bySeverity result)))
              @ js '' low-risk patterns</summary>\<newline>'']
           @ map (\<lambda>detection.
               js ''- **'' @ basename (file_path detection) @ js '':'' @ digits10 (line detection)
                 @ js ''**: `'' @ matchedText detection @ js ''`'') (low (bySeverity result))
           @ [js ''\<newline></details>\<newline>'']
      else [])"

definition mdRecommendations :: "ScanResult \<Rightarrow> jsstring list" where
  "mdRecommendations result =
     [js ''### Recommended Actions\<newline>'']
     @ (if length (high (bySeverity result)) > 0
        then [js ''1. **Immediate**: Fix all HIGH severity issues before merging'',
              js ''2. Add `vi.useFakeTimers()` in `beforeEach` for time-dependent tests'',
              js ''3. Use `vi.setSystemTime()` for deterministic date/time'']
        else [])
     @ (if length (medium (bySeverity result)) > 0
        then [js ''4. Review MEDIUM severity patterns for potential issues'']
        else [])
     @ [js ''5. Consider adding this check to CI to prevent new flaky patterns\<newline>'']"

definition formatAsMarkdown :: "ScanResult \<Rightarrow> jsstring" where
  "formatAsMarkdown result =
     (if totalDetections result = 0
      then join_nl (mdHeader result
             @ [js ''No flaky patterns detected. Your tests look deterministic!\<newline>''])
      else join_nl (mdHeader result @ mdSummary result @ mdHigh result @ mdMedium result
             @ mdLow result @ mdRecommendations result))"

text \<open>
  The values that \<open>formatAsJson\<close> hands to \<open>JSON.stringify\<close>: numbers that are counts,
  strings, arrays and objects with their properties in order.
\<close>

datatype json =
    JNumber nat
  | JString jsstring
  | JArray "json list"
  | JObject "(jsstring \<times> json) list"

definition severityString :: "Severity \<Rightarrow> jsstring" where
  "severityString v = (case v of High \<Rightarrow> js ''high'' | Medium \<Rightarrow> js ''medium'' | Low \<Rightarrow> js ''low'')"

definition jsonOfDetection :: "Detection \<Rightarrow> json" where
  "jsonOfDetection d =
     JObject [(js ''file'', JString (path_str (file_path d))),
              (js ''line'', JNumber (line d)),
              (js ''pattern'', JString (pattern d)),
              (js ''matchedText'', JString (matchedText d)),
              (js ''severity'', JString (severityString (Detection.severity d))),
              (js ''risk'', JString (Detection.risk d)),
              (js ''fix'', JString (Detection.fix_text d))]"

definition jsonOfResult :: "ScanResult \<Rightarrow> json" where
  "jsonOfResult result =
     JObject [(js ''scannedFiles'', JNumber (scannedFiles result)),
              (js ''totalDetections'', JNumber (totalDetections result)),
              (js ''summary'',
                 JObject [(js ''high'', JNumber (length (high (bySeverity result)))),
                          (js ''medium'', JNumber (length (medium (bySeverity result)))),
                          (js ''low'', JNumber (length (low (bySeverity result))))]),
              (js ''detections'', JArray (map jsonOfDetection (detections result)))]"

text \<open>
  \<open>JSON.stringify(value, null, 2)\<close>. \<open>quoteBody\<close> is QuoteJSONString without the two
  quotation marks: it works on code points, so a leading surrogate followed by a trailing
  one passes as it is, and a surrogate on its own is escaped.
\<close>

definition hexDigit :: "nat \<Rightarrow> nat" where
  "hexDigit d = (if d < 10 then 48 + d else 87 + d)"

definition unicodeEscape :: "nat \<Rightarrow> jsstring" where
  "unicodeEscape c =
     [92, 117, hexDigit (c div 4096 mod 16), hexDigit (c div 256 mod 16),
      hexDigit (c div 16 mod 16), hexDigit (c mod 16)]"

definition isLeadingSurrogate :: "nat \<Rightarrow> bool" where
  "isLeadingSurrogate c = (55296 \<le> c \<and> c \<le> 56319)"

definition isTrailingSurrogate :: "nat \<Rightarrow> bool" where
  "isTrailingSurrogate c = (56320 \<le> c \<and> c \<le> 57343)"

definition quoteUnit :: "nat \<Rightarrow> jsstring" where
  "quoteUnit c =
     (if c = 8 then [92, 98]
      else if c = 9 then [92, 116]
      else if c = 10 then [92, 110]
      else if c = 12 then [92, 102]
      else if c = 13 then [92, 114]
      else if c = 34 then [92, 34]
      else if c = 92 then [92, 92]
      else if c < 32 \<or> isLeadingSurrogate c \<or> isTrailingSurrogate c then unicodeEscape c
      else [c])"

fun quoteBody :: "jsstring \<Rightarrow> jsstring" where
  "quoteBody [] = []"
| "quoteBody [c] = quoteUnit c"
| "quoteBody (c # d # cs) =
     (if isLeadingSurrogate c \<and> isTrailingSurrogate d then c # d # quoteBody cs
      else quoteUnit c @ quoteBody (d # cs))"

definition quoteJSONString :: "jsstring \<Rightarrow> jsstring" where
  "quoteJSONString s = 34 # quoteBody s @ [34]"

text \<open>The separator between the elements of an array or the properties of an object.\<close>

fun joinWith :: "jsstring \<Rightarrow> jsstring list \<Rightarrow> jsstring" where
  "joinWith sep [] = []"
| "joinWith sep [x] = x"
| "joinWith sep (x # xs) = x @ sep @ joinWith sep xs"

text \<open>The first argument is the current indentation, in spaces; the gap is two spaces.\<close>

fun serialize :: "nat \<Rightarrow> json \<Rightarrow> jsstring" where
  "serialize ind (JNumber n) = digits10 n"
| "serialize ind (JString s) = quoteJSONString s"
| "serialize ind (JArray vs) =
     (if vs = [] then js ''[]''
      else [91, 10] @ replicate (ind + 2) 32
           @ joinWith ([44, 10] @ replicate (ind + 2) 32) (map (serialize (ind + 2)) vs)
           @ [10] @ replicate ind 32 @ [93])"
| "serialize ind (JObject ps) =
     (if ps = [] then js ''{}''
      else [123, 10] @ replicate (ind + 2) 32
           @ joinWith ([44, 10] @ replicate (ind + 2) 32)
               (map (\<lambda>(k, v). quoteJSONString k @ [58, 32] @ serialize (ind + 2) v) ps)
           @ [10] @ replicate ind 32 @ [125])"

definition formatAsJson :: "ScanResult \<Rightarrow> jsstring" where
  "formatAsJson result = serialize 0 (jsonOfResult result)"

section \<open>The command line\<close>





definition consoleError :: "jsstring \<Rightarrow> World \<Rightarrow> World" where
  "consoleError s w = w\<lparr>stderr := stderr w @ [s]\<rparr>"

text \<open>The world in which \<open>main\<close> calls \<open>scanDirectory\<close>: the first diagnostic line is out.\<close>

definition announce :: "path \<Rightarrow> jsstring list \<Rightarrow> World \<Rightarrow> World" where
  "announce targetDir args w =
     (if js ''--quiet'' \<notin> set args
      then consoleError (js ''Scanning for flaky test patterns in: '' @ path_str targetDir
             @ js ''\<newline>'') w
      else w)"


section \<open>Reading a JSON text back\<close>

text \<open>
  \<open>JSON.parse\<close>, for the texts whose values are counts, strings, arrays and objects
  without a repeated key. Any other text has no value here.
\<close>

definition isJsonWs :: "nat \<Rightarrow> bool" where
  "isJsonWs c = (c = 32 \<or> c = 10 \<or> c = 13 \<or> c = 9)"

fun skipWs :: "jsstring \<Rightarrow> jsstring" where
  "skipWs [] = []"
| "skipWs (c # cs) = (if isJsonWs c then skipWs cs else c # cs)"

definition hexValue :: "nat \<Rightarrow> nat option" where
  "hexValue c =
     (if 48 \<le> c \<and> c \<le> 57 then Some (c - 48)
      else if 97 \<le> c \<and> c \<le> 102 then Some (c - 87)
      else if 65 \<le> c \<and> c \<le> 70 then Some (c - 55)
      else None)"

definition unescape :: "nat \<Rightarrow> nat option" where
  "unescape e =
     (if e = 34 then Some 34
      else if e = 92 then Some 92
      else if e = 47 then Some 47
      else if e = 98 then Some 8
      else if e = 102 then Some 12
      else if e = 110 then Some 10
      else if e = 114 then Some 13
      else if e = 116 then Some 9
      else None)"

definition consTo :: "'a \<Rightarrow> ('a list \<times> 'b) option \<Rightarrow> ('a list \<times> 'b) option" where
  "consTo x r = (case r of None \<Rightarrow> None | Some (xs, rest) \<Rightarrow> Some (x # xs, rest))"

text \<open>The characters of a string after its opening quotation mark, up to the closing one.\<close>

fun parseChars :: "jsstring \<Rightarrow> (jsstring \<times> jsstring) option" where
  "parseChars [] = None"
| "parseChars (c # cs) =
     (if c = 34 then Some ([], cs)
      else if c = 92 then
        (case cs of
           [] \<Rightarrow> None
         | e # cs' \<Rightarrow>
             if e = 117 then
               (case cs' of
                  h1 # h2 # h3 # h4 # cs'' \<Rightarrow>
                    (case (hexValue h1, hexValue h2, hexValue h3, hexValue h4) of
                       (Some a, Some b, Some c', Some d) \<Rightarrow>
                         consTo (4096 * a + 256 * b + 16 * c' + d) (parseChars cs'')
                     | _ \<Rightarrow> None)
                | _ \<Rightarrow> None)
             else (case unescape e of
                     None \<Rightarrow> None
                   | Some x \<Rightarrow> consTo x (parseChars cs')))
      else if c < 32 then None
      else consTo c (parseChars cs))"

text \<open>A number of the grammar that is a count: digits without a leading zero, and nothing of a fraction or an exponent after them.\<close>

definition parseNumber :: "jsstring \<Rightarrow> (nat \<times> jsstring) option" where
  "parseNumber s =
     (let ds = takeWhile is_digit s; rest = dropWhile is_digit s
      in if ds = [] \<or> (1 < length ds \<and> hd ds = 48) then None
         else if rest \<noteq> [] \<and> (hd rest = 46 \<or> hd rest = 101 \<or> hd rest = 69) then None
         else Some (foldl (\<lambda>n d. 10 * n + (d - 48)) 0 ds, rest))"

text \<open>
  Values, the elements of an array after its bracket, and the members of an object after
  its brace. The first argument bounds the depth of the calls.
\<close>

fun parseValue :: "nat \<Rightarrow> jsstring \<Rightarrow> (json \<times> jsstring) option"
  and parseElements :: "nat \<Rightarrow> jsstring \<Rightarrow> (json list \<times> jsstring) option"
  and parseMembers :: "nat \<Rightarrow> jsstring \<Rightarrow> ((jsstring \<times> json) list \<times> jsstring) option" where
  "parseValue 0 s = None"
| "parseValue (Suc n) s =
     (case skipWs s of
        [] \<Rightarrow> None
      | c # cs \<Rightarrow>
          if c = 34 then
            (case parseChars cs of None \<Rightarrow> None | Some (t, r) \<Rightarrow> Some (JString t, r))
          else if c = 91 then
            (case skipWs cs of
               [] \<Rightarrow> None
             | c' # cs' \<Rightarrow>
                 if c' = 93 then Some (JArray [], cs')
                 else (case parseElements n cs of
                         None \<Rightarrow> None
                       | Some (vs, r) \<Rightarrow> Some (JArray vs, r)))
          else if c = 123 then
            (case skipWs cs of
               [] \<Rightarrow> None
             | c' # cs' \<Rightarrow>
                 if c' = 125 then Some (JObject [], cs')
                 else (case parseMembers n cs of
                         None \<Rightarrow> None
                       | Some (ms, r) \<Rightarrow> Some (JObject ms, r)))
          else if is_digit c then
            (case parseNumber (c # cs) of None \<Rightarrow> None | Some (k, r) \<Rightarrow> Some (JNumber k, r))
          else None)"
| "parseElements 0 s = None"
| "parseElements (Suc n) s =
     (case parseValue n s of
        None \<Rightarrow> None
      | Some (v, r) \<Rightarrow>
          (case skipWs r of
             [] \<Rightarrow> None
           | c # r' \<Rightarrow>
               if c = 44 then
                 (case parseElements n r' of
                    None \<Rightarrow> None
                  | Some (vs, r'') \<Rightarrow> Some (v # vs, r''))
               else if c = 93 then Some ([v], r')
               else None))"
| "parseMembers 0 s = None"
| "parseMembers (Suc n) s =
     (case skipWs s of
        [] \<Rightarrow> None
      | q # cs \<Rightarrow>
          if q \<noteq> 34 then None
          else
            (case parseChars cs of
               None \<Rightarrow> None
             | Some (k, r) \<Rightarrow>
                 (case skipWs r of
                    [] \<Rightarrow> None
                  | c # r1 \<Rightarrow>
                      if c \<noteq> 58 then None
                      else
                        (case parseValue n r1 of
                           None \<Rightarrow> None
                         | Some (v, r2) \<Rightarrow>
                             (case skipWs r2 of
                                [] \<Rightarrow> None
                              | c' # r3 \<Rightarrow>
                                  if c' = 44 then
                                    (case parseMembers n r3 of
                                       None \<Rightarrow> None
                                     | Some (ms, r4) \<Rightarrow> Some ((k, v) # ms, r4))
                                  else if c' = 125 then Some ([(k, v)], r3)
                                  else None)))))"

definition JSON_parse :: "jsstring \<Rightarrow> json option" where
  "JSON_parse s =
     (case parseValue (Suc (length s)) s of
        None \<Rightarrow> None
      | Some (v, r) \<Rightarrow> if skipWs r = [] then Some v else None)"

section \<open>Notions of the specification\<close>

text \<open>A lower bound on the length of what a pattern matches, read off the pattern.\<close>

fun minlen :: "regex \<Rightarrow> nat" where
  "minlen (Chr c) = 1"
| "minlen (ChrI c) = 1"
| "minlen (Cls cs) = 1"
| "minlen Eps = 0"
| "minlen (Seq r1 r2) = minlen r1 + minlen r2"
| "minlen (Alt r1 r2) = min (minlen r1) (minlen r2)"
| "minlen (Opt r) = 0"
| "minlen (Star r) = 0"
| "minlen WordB = 0"

text \<open>
  Global search: the matches of a pattern in a text from an index on, none overlapping
  another, the search resuming at the end of each match. The first argument bounds the
  number of matches; \<open>globalMatches\<close> gives it one more than the length of the text.
\<close>

fun matchesFrom :: "nat \<Rightarrow> regex \<Rightarrow> jsstring \<Rightarrow> nat \<Rightarrow> RegExpMatch list" where
  "matchesFrom 0 r s i = []"
| "matchesFrom (Suc n) r s i =
     (case search r s i of
        None \<Rightarrow> []
      | Some (j, e) \<Rightarrow> \<lparr>index = j, matched = take (e - j) (drop j s)\<rparr> # matchesFrom n r s e)"

definition globalMatches :: "regex \<Rightarrow> jsstring \<Rightarrow> RegExpMatch list" where
  "globalMatches r s = matchesFrom (Suc (length s)) r s 0"

text \<open>
  What a pattern without word boundary matches, as a set of texts: the usual meaning of a
  regular expression, against which the backtracking matcher is checked.
\<close>

fun lang :: "regex \<Rightarrow> jsstring \<Rightarrow> bool" where
  "lang (Chr c) w = (w = [of_char c])"
| "lang (ChrI c) w = (\<exists>x. w = [x] \<and> canonicalize x = canonicalize (of_char c))"
| "lang (Cls cs) w = (\<exists>x. w = [x] \<and> in_cset cs x)"
| "lang Eps w = (w = [])"
| "lang (Seq r1 r2) w = (\<exists>u v. w = u @ v \<and> lang r1 u \<and> lang r2 v)"
| "lang (Alt r1 r2) w = (lang r1 w \<or> lang r2 w)"
| "lang (Opt r) w = (w = [] \<or> lang r w)"
| "lang (Star r) w = (\<exists>us. w = concat us \<and> (\<forall>u \<in> set us. lang r u))"
| "lang WordB w = False"

fun wordbFree :: "regex \<Rightarrow> bool" where
  "wordbFree (Seq r1 r2) = (wordbFree r1 \<and> wordbFree r2)"
| "wordbFree (Alt r1 r2) = (wordbFree r1 \<and> wordbFree r2)"
| "wordbFree (Opt r) = wordbFree r"
| "wordbFree (Star r) = wordbFree r"
| "wordbFree WordB = False"
| "wordbFree _ = True"

text \<open>The part of a text from index \<open>i\<close> up to index \<open>e\<close>.\<close>

definition seg :: "jsstring \<Rightarrow> nat \<Rightarrow> nat \<Rightarrow> jsstring" where
  "seg s i e = take (e - i) (drop i s)"

text \<open>The catalog in any state: its regular expression objects may have any \<open>lastIndex\<close>.\<close>

definition catalogState :: "FlakyPattern list \<Rightarrow> bool" where
  "catalogState pats =
     (map (\<lambda>p. p\<lparr>regex := (regex p)\<lparr>lastIndex := 0\<rparr>\<rparr>) pats = FLAKY_PATTERNS)"

text \<open>
  The lookback window of a match that starts at \<open>i\<close>: the at most 2000 code units
  immediately before \<open>i\<close>.
\<close>

definition lookback :: "jsstring \<Rightarrow> nat \<Rightarrow> jsstring" where
  "lookback content i = drop (i - 2000) (take i content)"

text \<open>
  The mitigation signatures, as texts: one of four fixed texts, a \<open>spyOn\<close> call on
  \<open>Date\<close> with any white space around the parenthesis, \<open>mockDate\<close> in any mix of upper
  and lower case, or \<open>MockDate\<close>.
\<close>

definition spyOnDate :: "string \<Rightarrow> jsstring \<Rightarrow> bool" where
  "spyOnDate lib win =
     (\<exists>a b. list_all is_space a \<and> list_all is_space b
        \<and> sublist (js lib @ js ''.spyOn'' @ a @ js ''('' @ b @ js ''Date'') win)"

definition hasMitigation :: "jsstring \<Rightarrow> bool" where
  "hasMitigation win =
     (sublist (js ''vi.useFakeTimers'') win \<or> sublist (js ''jest.useFakeTimers'') win
      \<or> sublist (js ''vi.setSystemTime'') win \<or> sublist (js ''jest.setSystemTime'') win
      \<or> spyOnDate ''vi'' win \<or> spyOnDate ''jest'' win
      \<or> sublist (map canonicalize (js ''mockDate'')) (map canonicalize win)
      \<or> sublist (js ''MockDate'') win)"

text \<open>The matches of a rule that the scanner accepts, and the detections of a whole text.\<close>

definition acceptedMatches :: "FlakyPattern \<Rightarrow> jsstring \<Rightarrow> RegExpMatch list" where
  "acceptedMatches p content =
     filter (\<lambda>m. FlakyPattern.severity p = High \<or> \<not> hasMitigation (lookback content (index m)))
       (globalMatches (source (regex p)) content)"

definition detectionsOf :: "path \<Rightarrow> jsstring \<Rightarrow> Detection list" where
  "detectionsOf filePath content =
     concat (map (\<lambda>p. map (makeDetection filePath content (split_nl content) p)
                         (acceptedMatches p content)) FLAKY_PATTERNS)"

definition newlinesBefore :: "jsstring \<Rightarrow> nat \<Rightarrow> nat" where
  "newlinesBefore content i = length (filter (\<lambda>c. c = 10) (take i content))"

text \<open>No directory lists a name twice.\<close>

fun distinctNames :: "fsnode \<Rightarrow> bool" where
  "distinctNames (Dir (Some entries)) =
     (distinct (map fst entries) \<and> (\<forall>e \<in> set entries. distinctNames (snd e)))"
| "distinctNames _ = True"

text \<open>
  The scanner with the program's own heuristic, for evaluation; the offset at which a line
  starts in a text that is a list of lines joined by line feeds.
\<close>

definition scanContent :: "path \<Rightarrow> jsstring \<Rightarrow> Detection list" where
  "scanContent filePath content =
     concat (map (\<lambda>p. map (makeDetection filePath content (split_nl content) p)
                         (filter (\<lambda>m. FlakyPattern.severity p = High
                                       \<or> \<not> isLikelyMocked content (index m))
                            (globalMatches (source (regex p)) content))) FLAKY_PATTERNS)"

definition lineOffset :: "jsstring list \<Rightarrow> nat \<Rightarrow> nat" where
  "lineOffset ls N = sum_list (map (\<lambda>l. Suc (length l)) (take (N - 1) ls))"

text \<open>
  A path that the loop over the entries of a directory can add: below the directory,
  through an entry of it, with no ignored name among the directories on the way.
\<close>

definition underDir :: "(jsstring \<times> fsnode) list \<Rightarrow> path \<Rightarrow> path \<Rightarrow> bool" where
  "underDir entries dir p =
     (\<exists>nm rel. p = dir @ nm # rel \<and> nm \<in> fst ` set entries
        \<and> (\<forall>n \<in> set (butlast (nm # rel)). n \<notin> set ignoreList))"

text \<open>
  The detections of one file, none if it cannot be read, and the result of the aggregator
  for a list of files, both in closed form.
\<close>

definition fileDetections :: "fsnode \<Rightarrow> path \<Rightarrow> Detection list" where
  "fileDetections fs f = (case readFileSync fs f of None \<Rightarrow> [] | Some c \<Rightarrow> detectionsOf f c)"

definition resultOf :: "fsnode \<Rightarrow> path list \<Rightarrow> ScanResult" where
  "resultOf fs files =
     (let ds = concat (map (fileDetections fs) files)
      in \<lparr>scannedFiles = length files, totalDetections = length ds, detections = ds,
          byFile = map (\<lambda>f. (f, fileDetections fs f))
                     (filter (\<lambda>f. fileDetections fs f \<noteq> []) files),
          bySeverity = \<lparr>high = filter (\<lambda>d. Detection.severity d = High) ds,
                        medium = filter (\<lambda>d. Detection.severity d = Medium) ds,
                        low = filter (\<lambda>d. Detection.severity d = Low) ds\<rparr>\<rparr>)"

text \<open>
  A directory that the walk of \<open>findTestFiles\<close> can go through: it can be listed, and so
  can every directory that the walk enters from it (those whose name is not on the ignore
  list). And: the walk comes upon a test file.
\<close>

fun listable :: "fsnode \<Rightarrow> bool" where
  "listable (Dir (Some entries)) =
     (\<forall>e \<in> set entries. isDirectory (snd e) \<and> fst e \<notin> set ignoreList \<longrightarrow> listable (snd e))"
| "listable _ = False"

fun hasTestFile :: "fsnode \<Rightarrow> bool" where
  "hasTestFile (Dir (Some entries)) =
     (\<exists>e \<in> set entries.
        (\<not> isDirectory (snd e) \<and> isFile (snd e) \<and> isTestFileName (fst e))
        \<or> (isDirectory (snd e) \<and> fst e \<notin> set ignoreList \<and> hasTestFile (snd e)))"
| "hasTestFile _ = False"

text \<open>
  The rule firings behind a scan: for each discovered file in order that can be read, each
  rule of the catalog in order, and each match of the rule's own regular expression in the
  file's content that the scanner accepts, the file, the content, the rule and the match.
\<close>

definition firings ::
    "fsnode \<Rightarrow> path list \<Rightarrow> (path \<times> jsstring \<times> FlakyPattern \<times> RegExpMatch) list" where
  "firings fs files =
     concat (map (\<lambda>f. case readFileSync fs f of
                          None \<Rightarrow> []
                        | Some c \<Rightarrow>
                            concat (map (\<lambda>p. map (\<lambda>m. (f, c, p, m)) (acceptedMatches p c))
                                      FLAKY_PATTERNS))
                 files)"

text \<open>
  For the proof that the text of a value parses back: what may follow a number (a comma,
  a line feed or the end), the depth of calls that parsing the text of a value takes, a
  text that starts with the first character of a value or of a key, the text of one
  property of an object, and the statement itself for one value.
\<close>

definition numberEnd :: "jsstring \<Rightarrow> bool" where
  "numberEnd rest = (rest = [] \<or> (hd rest = 44 \<or> hd rest = 10))"

fun weight :: "json \<Rightarrow> nat" where
  "weight (JNumber n) = 1"
| "weight (JString s) = 1"
| "weight (JArray vs) = Suc (sum_list (map (\<lambda>v. Suc (weight v)) vs))"
| "weight (JObject ps) = Suc (sum_list (map (\<lambda>p. Suc (weight (snd p))) ps))"

definition startsValue :: "jsstring \<Rightarrow> bool" where
  "startsValue s = (\<exists>x xs. s = x # xs \<and> \<not> isJsonWs x \<and> x \<noteq> 93 \<and> x \<noteq> 125)"

definition member :: "nat \<Rightarrow> jsstring \<times> json \<Rightarrow> jsstring" where
  "member ind p = quoteJSONString (fst p) @ [58, 32] @ serialize ind (snd p)"

definition parsesBack :: "json \<Rightarrow> bool" where
  "parsesBack v =
     (\<forall>n ind pre rest. weight v \<le> n \<longrightarrow> list_all isJsonWs pre \<longrightarrow> numberEnd rest \<longrightarrow>
        parseValue n (pre @ serialize ind v @ rest) = Some (v, rest))"

section \<open>Examples\<close>

text \<open>
  A test file of three lines: a mitigation signature, a medium-severity pattern after it,
  and a high-severity pattern. Beside it a dependency directory with a test file of its
  own, and a file that is no test file.
\<close>

definition exampleContent :: jsstring where
  "exampleContent = js ''MockDate\<newline>Date.now()\<newline>ttlSeconds=1''"

definition exampleFs :: fsnode where
  "exampleFs =
     Dir (Some [(js ''a.test.ts'', File (Some exampleContent)),
                (js ''node_modules'', Dir (Some [(js ''b.test.ts'', File (Some (js ''Date.now()'')))])),
                (js ''README.md'', File (Some []))])"

definition exampleWorld :: World where
  "exampleWorld = \<lparr>patterns = FLAKY_PATTERNS, stdout = [], stderr = []\<rparr>"

text \<open>A world in which earlier scans have left every \<open>lastIndex\<close> at 7.\<close>

definition usedWorld :: World where
  "usedWorld =
     \<lparr>patterns = map (\<lambda>p. p\<lparr>regex := (regex p)\<lparr>lastIndex := 7\<rparr>\<rparr>) FLAKY_PATTERNS,
      stdout = [], stderr = [js ''Error scanning x:'']\<rparr>"

text \<open>The one detection in the example file, and the result of scanning its directory.\<close>

definition exampleDetection :: Detection where
  "exampleDetection =
     \<lparr>file_path = [js ''a.test.ts''], line = 3, pattern = js ''1-second TTL'',
      matchedText = js ''ttlSeconds=1'', severity = High,
      risk = js ''1-second TTL causes second-boundary race conditions. Tests may pass or fail depending on when they cross the second boundary.'',
      fix_text = js ''Use vi.useFakeTimers() to control time, or increase TTL to 5+ seconds for real-time tests.'',
      context_lines = [js ''     1: MockDate'', js ''     2: Date.now()'', js ''>    3: ttlSeconds=1'']\<rparr>"

definition exampleResult :: ScanResult where
  "exampleResult =
     \<lparr>scannedFiles = 1, totalDetections = 1, detections = [exampleDetection],
      byFile = [([js ''a.test.ts''], [exampleDetection])],
      bySeverity = \<lparr>high = [exampleDetection], medium = [], low = []\<rparr>\<rparr>"

text \<open>The result without files and detections, and the all-clear message.\<close>

definition emptyResult :: ScanResult where
  "emptyResult =
     \<lparr>scannedFiles = 0, totalDetections = 0, detections = [], byFile = [],
      bySeverity = \<lparr>high = [], medium = [], low = []\<rparr>\<rparr>"

definition allClear :: jsstring where
  "allClear = js ''No flaky patterns detected. Your tests look deterministic!''"

text \<open>
  A directory without test files in which one sub-directory cannot be listed, and a
  directory whose only test file lies in a dependency directory.
\<close>

definition lockedFs :: fsnode where
  "lockedFs = Dir (Some [(js ''README.md'', File (Some [])), (js ''locked'', Dir None)])"

definition testlessFs :: fsnode where
  "testlessFs =
     Dir (Some [(js ''README.md'', File (Some [])),
                (js ''node_modules'', Dir (Some [(js ''b.test.ts'', File (Some (js ''Date.now()'')))])),
                (js ''docs'', Dir (Some [(js ''notes.txt'', File (Some []))]))])"

section \<open>Properties of the matcher and of the scanner\<close>

subsection \<open>Bounds on what the matcher returns\<close>

lemma star_from_lower:
  assumes "\<And>a b. b \<in> set (step a) \<Longrightarrow> a \<le> b"
  shows "e \<in> set (star_from step n i) \<Longrightarrow> i \<le> e"
proof (induction n arbitrary: i)
  case 0
  then show ?case by simp
next
  case (Suc n)
  from Suc.prems have "e = i \<or> (\<exists>j \<in> set (step i). j \<noteq> i \<and> e \<in> set (star_from step n j))"
    by (auto split: if_splits)
  then show ?case
  proof
    assume "e = i" then show ?thesis by simp
  next
    assume "\<exists>j \<in> set (step i). j \<noteq> i \<and> e \<in> set (star_from step n j)"
    then obtain j where j: "j \<in> set (step i)" "e \<in> set (star_from step n j)" by blast
    from assms [OF j(1)] Suc.IH [OF j(2)] show ?thesis by simp
  qed
qed

lemma star_from_upper:
  assumes "\<And>a b. b \<in> set (step a) \<Longrightarrow> a \<le> m \<Longrightarrow> b \<le> m"
  shows "e \<in> set (star_from step n i) \<Longrightarrow> i \<le> m \<Longrightarrow> e \<le> m"
proof (induction n arbitrary: i)
  case 0
  then show ?case by simp
next
  case (Suc n)
  from Suc.prems have "e = i \<or> (\<exists>j \<in> set (step i). j \<noteq> i \<and> e \<in> set (star_from step n j))"
    by (auto split: if_splits)
  then show ?case
  proof
    assume "e = i" then show ?thesis using Suc.prems by simp
  next
    assume "\<exists>j \<in> set (step i). j \<noteq> i \<and> e \<in> set (star_from step n j)"
    then obtain j where j: "j \<in> set (step i)" "e \<in> set (star_from step n j)" by blast
    from assms [OF j(1)] Suc.prems have "j \<le> m" by simp
    from Suc.IH [OF j(2) this] show ?thesis .
  qed
qed


lemma ends_lower: "e \<in> set (ends r s i) \<Longrightarrow> i + minlen r \<le> e"
proof (induction r arbitrary: i e)
  case (Seq r1 r2)
  from Seq.prems obtain m where m: "m \<in> set (ends r1 s i)" "e \<in> set (ends r2 s m)" by auto
  from Seq.IH(1) [OF m(1)] Seq.IH(2) [OF m(2)] show ?case by simp
next
  case (Alt r1 r2)
  from Alt.prems have "e \<in> set (ends r1 s i) \<or> e \<in> set (ends r2 s i)" by simp
  then show ?case using Alt.IH by fastforce
next
  case (Opt r)
  from Opt.prems have "e = i \<or> e \<in> set (ends r s i)" by auto
  then show ?case using Opt.IH by fastforce
next
  case (Star r)
  have "\<And>a b. b \<in> set (ends r s a) \<Longrightarrow> a \<le> b" using Star.IH by fastforce
  then have "i \<le> e"
    using Star.prems star_from_lower [of "ends r s" e "length s - i" i] by simp
  then show ?case by simp
qed (simp_all split: if_splits)

lemma ends_upper: "e \<in> set (ends r s i) \<Longrightarrow> i \<le> length s \<Longrightarrow> e \<le> length s"
proof (induction r arbitrary: i e)
  case (Seq r1 r2)
  from Seq.prems obtain m where m: "m \<in> set (ends r1 s i)" "e \<in> set (ends r2 s m)" by auto
  have "m \<le> length s" using Seq.IH(1) [OF m(1)] Seq.prems by simp
  then show ?case using Seq.IH(2) [OF m(2)] by simp
next
  case (Alt r1 r2)
  from Alt.prems have "e \<in> set (ends r1 s i) \<or> e \<in> set (ends r2 s i)" by simp
  then show ?case using Alt.IH Alt.prems(2) by blast
next
  case (Opt r)
  from Opt.prems have "e = i \<or> e \<in> set (ends r s i)" by auto
  then show ?case using Opt.IH Opt.prems(2) by blast
next
  case (Star r)
  have "\<And>a b. b \<in> set (ends r s a) \<Longrightarrow> a \<le> length s \<Longrightarrow> b \<le> length s"
    using Star.IH by blast
  then show ?case
    using Star.prems star_from_upper [of "ends r s" "length s" e "length s - i" i] by simp
qed (simp_all split: if_splits)


lemma search_unfold_Nil:
  "\<not> length s < i \<Longrightarrow> ends r s i = [] \<Longrightarrow> search r s i = search r s (Suc i)"
  by (subst search.simps) simp

lemma search_unfold_Cons:
  "\<not> length s < i \<Longrightarrow> ends r s i = e # es \<Longrightarrow> search r s i = Some (i, e)"
  by (subst search.simps) simp

lemma search_unfold_beyond: "length s < i \<Longrightarrow> search r s i = None"
  by (subst search.simps) simp

lemma search_Some:
  "search r s i = Some (j, e) \<Longrightarrow> i \<le> j \<and> j \<le> length s \<and> j + minlen r \<le> e \<and> e \<le> length s"
proof (induction r s i rule: search.induct)
  case (1 r s i)
  show ?case
  proof (cases "length s < i")
    case True
    with "1.prems" show ?thesis by (simp add: search_unfold_beyond)
  next
    case False
    show ?thesis
    proof (cases "ends r s i")
      case Nil
      with False "1.prems" have "search r s (Suc i) = Some (j, e)"
        by (simp add: search_unfold_Nil)
      from "1.IH" [OF False Nil this] show ?thesis by simp
    next
      case (Cons e' es)
      with False "1.prems" have eq: "j = i" "e = e'"
        by (simp_all add: search_unfold_Cons)
      have "e' \<in> set (ends r s i)" using Cons by simp
      then show ?thesis
        using eq False ends_lower [of e' r s i] ends_upper [of e' r s i] by simp
    qed
  qed
qed


lemma makeDetection_regex [simp]:
  "makeDetection fp content ls (pat\<lparr>regex := re\<rparr>) m = makeDetection fp content ls pat m"
  by (simp add: makeDetection_def)

lemma scanPattern_eq:
  "0 < minlen (source (regex pat)) \<Longrightarrow> Suc (length content) - lastIndex (regex pat) \<le> n \<Longrightarrow>
   scanPattern fp content ls pat dets =
     Some (dets @ map (makeDetection fp content ls pat)
                    (filter (\<lambda>m. FlakyPattern.severity pat = High \<or> \<not> isLikelyMocked content (index m))
                       (matchesFrom n (source (regex pat)) content (lastIndex (regex pat)))),
           pat\<lparr>regex := (regex pat)\<lparr>lastIndex := 0\<rparr>\<rparr>)"
proof (induction n arbitrary: pat dets)
  case 0
  then have "search (source (regex pat)) content (lastIndex (regex pat)) = None"
    by (simp add: search_unfold_beyond)
  then show ?case
    by (subst scanPattern.simps) (simp add: exec_def)
next
  case (Suc n)
  show ?case
  proof (cases "search (source (regex pat)) content (lastIndex (regex pat))")
    case None
    then show ?thesis
      by (subst scanPattern.simps) (simp add: exec_def)
  next
    case (Some je)
    obtain j e where je: "je = (j, e)" by (cases je)
    note srch = Some [unfolded je]
    from search_Some [OF srch] Suc.prems(1)
    have bounds: "lastIndex (regex pat) < e" "e \<le> length content" by simp_all
    let ?pat' = "pat\<lparr>regex := (regex pat)\<lparr>lastIndex := e\<rparr>\<rparr>"
    let ?m = "\<lparr>index = j, matched = take (e - j) (drop j content)\<rparr>"
    have p1: "0 < minlen (source (regex ?pat'))" using Suc.prems(1) by simp
    have p2: "Suc (length content) - lastIndex (regex ?pat') \<le> n"
      using Suc.prems(2) bounds by simp
    note IH = Suc.IH [OF p1 p2]
    show ?thesis
      by (subst scanPattern.simps) (simp add: exec_def srch IH)
  qed
qed

subsection \<open>Segments of a text\<close>

lemma seg_self [simp]: "seg s i i = []"
  by (simp add: seg_def)

lemma length_seg: "e \<le> length s \<Longrightarrow> length (seg s i e) = e - i"
  by (simp add: seg_def)

lemma seg_append: "i \<le> m \<Longrightarrow> m \<le> e \<Longrightarrow> seg s i m @ seg s m e = seg s i e"
proof -
  assume a: "i \<le> m" "m \<le> e"
  have "take (e - i) (drop i s) = take (m - i) (drop i s) @ take (e - i - (m - i)) (drop (m - i) (drop i s))"
    using a by (metis add_diff_cancel_left' diff_le_mono le_add_diff_inverse take_add)
  then show ?thesis using a by (simp add: seg_def)
qed

lemma seg_Suc: "i < length s \<Longrightarrow> seg s i (Suc i) = [s ! i]"
  by (simp add: seg_def take_Suc_conv_app_nth hd_drop_conv_nth take_Suc)

lemma seg_split:
  assumes "seg s i e = u @ v" "i \<le> e" "e \<le> length s"
  shows "seg s i (i + length u) = u \<and> seg s (i + length u) e = v \<and> i + length u \<le> e"
proof -
  have len: "length u + length v = e - i"
    using assms by (metis length_append length_seg)
  then have le: "i + length u \<le> e" using assms(2) by simp
  have "seg s i (i + length u) @ seg s (i + length u) e = u @ v"
    using seg_append [of i "i + length u" e s] le assms(1) by simp
  moreover have "length (seg s i (i + length u)) = length u"
    using le assms(3) by (simp add: length_seg)
  ultimately show ?thesis using le by simp
qed

lemma seg_singleton:
  "i \<le> e \<Longrightarrow> e \<le> length s \<Longrightarrow> seg s i e = [x] \<longleftrightarrow> (e = Suc i \<and> i < length s \<and> s ! i = x)"
proof
  assume a: "i \<le> e" "e \<le> length s" "seg s i e = [x]"
  then have "e - i = 1" by (metis length_seg length_Cons list.size(3) One_nat_def)
  with a have e: "e = Suc i" by simp
  with a show "e = Suc i \<and> i < length s \<and> s ! i = x" by (simp add: seg_Suc)
next
  assume "i \<le> e" "e \<le> length s" "e = Suc i \<and> i < length s \<and> s ! i = x"
  then show "seg s i e = [x]" by (simp add: seg_Suc)
qed

lemma star_from_self: "i \<in> set (star_from step n i)"
  by (cases n) simp_all

subsection \<open>The star iteration\<close>

lemma star_from_sound:
  assumes step: "\<And>a b. a \<le> length s \<Longrightarrow> b \<in> set (step a) \<Longrightarrow> a \<le> b \<and> b \<le> length s \<and> P (seg s a b)"
  shows "e \<in> set (star_from step n i) \<Longrightarrow> i \<le> length s \<Longrightarrow>
         i \<le> e \<and> e \<le> length s \<and> (\<exists>us. seg s i e = concat us \<and> (\<forall>u \<in> set us. P u))"
proof (induction n arbitrary: i)
  case 0
  then have "e = i" by simp
  moreover have "seg s i i = concat []" by simp
  ultimately show ?case using "0.prems" by (metis empty_iff list.set(1) order_refl)
next
  case (Suc n)
  from Suc.prems have "e = i \<or> (\<exists>j \<in> set (step i). j \<noteq> i \<and> e \<in> set (star_from step n j))"
    by (auto split: if_splits)
  then show ?case
  proof
    assume "e = i"
    moreover have "seg s i i = concat []" by simp
    ultimately show ?thesis using Suc.prems by (metis empty_iff list.set(1) order_refl)
  next
    assume "\<exists>j \<in> set (step i). j \<noteq> i \<and> e \<in> set (star_from step n j)"
    then obtain j where j: "j \<in> set (step i)" "e \<in> set (star_from step n j)" by blast
    from step [OF Suc.prems(2) j(1)] have sj: "i \<le> j" "j \<le> length s" "P (seg s i j)" by simp_all
    from Suc.IH [OF j(2) sj(2)] obtain us where
      us: "j \<le> e" "e \<le> length s" "seg s j e = concat us" "\<forall>u \<in> set us. P u" by blast
    have "seg s i e = concat (seg s i j # us)"
      using seg_append [OF sj(1) us(1), of s] us(3) by simp
    moreover have "\<forall>u \<in> set (seg s i j # us). P u" using sj(3) us(4) by simp
    ultimately show ?thesis using sj(1) us(1,2) by (metis le_trans)
  qed
qed

lemma star_from_complete:
  assumes step: "\<And>a b. a \<le> b \<Longrightarrow> b \<le> length s \<Longrightarrow> P (seg s a b) \<Longrightarrow> b \<in> set (step a)"
  shows "\<forall>u \<in> set us. P u \<and> u \<noteq> [] \<Longrightarrow> seg s i e = concat us \<Longrightarrow> i \<le> e \<Longrightarrow> e \<le> length s \<Longrightarrow>
         length s - i \<le> n \<Longrightarrow> e \<in> set (star_from step n i)"
proof (induction us arbitrary: i n)
  case Nil
  then have "e - i = 0" by (metis concat.simps(1) length_seg list.size(3))
  with Nil.prems have "e = i" by simp
  then show ?case by (simp add: star_from_self)
next
  case (Cons u us)
  from Cons.prems(1) have u: "P u" "u \<noteq> []" by simp_all
  from Cons.prems(2) have "seg s i e = u @ concat us" by simp
  from seg_split [OF this Cons.prems(3,4)]
  have sp: "seg s i (i + length u) = u" "seg s (i + length u) e = concat us" "i + length u \<le> e"
    by simp_all
  let ?j = "i + length u"
  have jl: "?j \<le> length s" using sp(3) Cons.prems(4) by simp
  have "?j \<in> set (step i)" using step [of i ?j] jl sp(1) u(1) by simp
  moreover have "?j \<noteq> i" using u(2) by simp
  moreover have "0 < length u" using u(2) by simp
  then have "0 < n" using Cons.prems(5) jl by linarith
  then obtain n' where n': "n = Suc n'" by (cases n) auto
  moreover have "e \<in> set (star_from step n' ?j)"
  proof (rule Cons.IH [OF _ sp(2) sp(3) Cons.prems(4)])
    show "\<forall>u\<in>set us. P u \<and> u \<noteq> []" using Cons.prems(1) by simp
    have "0 < length u" using u(2) by simp
    then show "length s - ?j \<le> n'" using Cons.prems(5) n' jl by linarith
  qed
  ultimately show ?case by auto
qed

lemma concat_filter_nonempty: "concat (filter (\<lambda>u. u \<noteq> []) us) = concat us"
  by (induction us) auto

subsection \<open>The matcher against the meaning of patterns\<close>

lemma ends_lang:
  "wordbFree r \<Longrightarrow> i \<le> length s \<Longrightarrow>
   e \<in> set (ends r s i) \<longleftrightarrow> (i \<le> e \<and> e \<le> length s \<and> lang r (seg s i e))"
proof (induction r arbitrary: i e)
  case (Chr c)
  show ?case
  proof (cases "i \<le> e \<and> e \<le> length s")
    case True
    then have "seg s i e = [of_char c] \<longleftrightarrow> (e = Suc i \<and> i < length s \<and> s ! i = of_char c)"
      by (simp add: seg_singleton)
    with True show ?thesis by (simp split: if_splits)
  next
    case False
    then show ?thesis by (auto split: if_splits)
  qed
next
  case (ChrI c)
  show ?case
  proof (cases "i \<le> e \<and> e \<le> length s")
    case True
    then have "\<And>x. seg s i e = [x] \<longleftrightarrow> (e = Suc i \<and> i < length s \<and> s ! i = x)"
      by (simp add: seg_singleton)
    with True show ?thesis by (simp split: if_splits)
  next
    case False
    then show ?thesis by (auto split: if_splits)
  qed
next
  case (Cls cs)
  show ?case
  proof (cases "i \<le> e \<and> e \<le> length s")
    case True
    then have "\<And>x. seg s i e = [x] \<longleftrightarrow> (e = Suc i \<and> i < length s \<and> s ! i = x)"
      by (simp add: seg_singleton)
    with True show ?thesis by (simp split: if_splits)
  next
    case False
    then show ?thesis by (auto split: if_splits)
  qed
next
  case Eps
  show ?case
  proof
    assume "e \<in> set (ends Eps s i)"
    then show "i \<le> e \<and> e \<le> length s \<and> lang Eps (seg s i e)" using Eps.prems by simp
  next
    assume a: "i \<le> e \<and> e \<le> length s \<and> lang Eps (seg s i e)"
    then have "seg s i e = []" by simp
    moreover have "e \<le> length s" using a by simp
    then have "length (seg s i e) = e - i" by (rule length_seg)
    ultimately have "e - i = 0" by simp
    with a show "e \<in> set (ends Eps s i)" by simp
  qed
next
  case (Seq r1 r2)
  from Seq.prems have wf: "wordbFree r1" "wordbFree r2" by simp_all
  show ?case
  proof
    assume "e \<in> set (ends (Seq r1 r2) s i)"
    then obtain m where m: "m \<in> set (ends r1 s i)" "e \<in> set (ends r2 s m)" by auto
    from Seq.IH(1) [OF wf(1) Seq.prems(2), of m] m(1)
    have m1: "i \<le> m" "m \<le> length s" "lang r1 (seg s i m)" by simp_all
    from Seq.IH(2) [OF wf(2) m1(2), of e] m(2)
    have m2: "m \<le> e" "e \<le> length s" "lang r2 (seg s m e)" by simp_all
    have "seg s i e = seg s i m @ seg s m e" using seg_append [OF m1(1) m2(1)] by simp
    then have "lang (Seq r1 r2) (seg s i e)" using m1(3) m2(3) by auto
    then show "i \<le> e \<and> e \<le> length s \<and> lang (Seq r1 r2) (seg s i e)"
      using m1(1) m2(1,2) by simp
  next
    assume a: "i \<le> e \<and> e \<le> length s \<and> lang (Seq r1 r2) (seg s i e)"
    then obtain u v where uv: "seg s i e = u @ v" "lang r1 u" "lang r2 v" by auto
    from seg_split [OF uv(1)] a
    have sp: "seg s i (i + length u) = u" "seg s (i + length u) e = v" "i + length u \<le> e"
      by simp_all
    let ?m = "i + length u"
    have ml: "?m \<le> length s" using sp(3) a by simp
    have "?m \<in> set (ends r1 s i)"
      using Seq.IH(1) [OF wf(1) Seq.prems(2), of ?m] ml sp(1) uv(2) by simp
    moreover have "e \<in> set (ends r2 s ?m)"
      using Seq.IH(2) [OF wf(2) ml, of e] sp(2,3) uv(3) a by simp
    ultimately show "e \<in> set (ends (Seq r1 r2) s i)" by auto
  qed
next
  case (Alt r1 r2)
  then show ?case by auto
next
  case (Opt r)
  from Opt.prems have wf: "wordbFree r" by simp
  show ?case
  proof
    assume "e \<in> set (ends (Opt r) s i)"
    then have "e = i \<or> e \<in> set (ends r s i)" by auto
    then show "i \<le> e \<and> e \<le> length s \<and> lang (Opt r) (seg s i e)"
      using Opt.IH [OF wf Opt.prems(2), of e] Opt.prems(2) by auto
  next
    assume a: "i \<le> e \<and> e \<le> length s \<and> lang (Opt r) (seg s i e)"
    show "e \<in> set (ends (Opt r) s i)"
    proof (cases "e = i")
      case True
      then show ?thesis by simp
    next
      case False
      have "e \<le> length s" using a by simp
      then have "length (seg s i e) = e - i" by (rule length_seg)
      with False a have "seg s i e \<noteq> []" by auto
      with a have "lang r (seg s i e)" by simp
      with a have "e \<in> set (ends r s i)" using Opt.IH [OF wf Opt.prems(2), of e] by simp
      with False show ?thesis by simp
    qed
  qed
next
  case (Star r)
  from Star.prems have wf: "wordbFree r" by simp
  show ?case
  proof
    assume "e \<in> set (ends (Star r) s i)"
    then have mem: "e \<in> set (star_from (ends r s) (length s - i) i)" by simp
    have "i \<le> e \<and> e \<le> length s \<and> (\<exists>us. seg s i e = concat us \<and> (\<forall>u \<in> set us. lang r u))"
    proof (rule star_from_sound [OF _ mem Star.prems(2)])
      fix a b assume "a \<le> length s" "b \<in> set (ends r s a)"
      then show "a \<le> b \<and> b \<le> length s \<and> lang r (seg s a b)"
        using Star.IH [OF wf, of a b] by simp
    qed
    then show "i \<le> e \<and> e \<le> length s \<and> lang (Star r) (seg s i e)" by simp
  next
    assume a: "i \<le> e \<and> e \<le> length s \<and> lang (Star r) (seg s i e)"
    then obtain us where us: "seg s i e = concat us" "\<forall>u \<in> set us. lang r u" by auto
    let ?us = "filter (\<lambda>u. u \<noteq> []) us"
    have "e \<in> set (star_from (ends r s) (length s - i) i)"
    proof (rule star_from_complete [where P = "lang r" and us = ?us])
      fix a b assume "a \<le> b" "b \<le> length s" "lang r (seg s a b)"
      then show "b \<in> set (ends r s a)" using Star.IH [OF wf, of a b] by simp
    next
      show "\<forall>u \<in> set ?us. lang r u \<and> u \<noteq> []" using us(2) by simp
      show "seg s i e = concat ?us" using us(1) by (simp add: concat_filter_nonempty)
      show "i \<le> e" "e \<le> length s" using a by simp_all
      show "length s - i \<le> length s - i" by simp
    qed
    then show "e \<in> set (ends (Star r) s i)" by simp
  qed
next
  case WordB
  then show ?case by simp
qed

subsection \<open>Searching and testing\<close>

lemma search_None_iff:
  "search r s i = None \<longleftrightarrow> (\<forall>j. i \<le> j \<and> j \<le> length s \<longrightarrow> ends r s j = [])"
proof (induction r s i rule: search.induct)
  case (1 r s i)
  show ?case
  proof (cases "length s < i")
    case True
    then show ?thesis by (auto simp: search_unfold_beyond)
  next
    case False
    show ?thesis
    proof (cases "ends r s i")
      case Nil
      have "(\<forall>j. i \<le> j \<and> j \<le> length s \<longrightarrow> ends r s j = [])
            \<longleftrightarrow> (\<forall>j. Suc i \<le> j \<and> j \<le> length s \<longrightarrow> ends r s j = [])"
        using Nil by (metis Suc_leI le_neq_implies_less Suc_leD)
      then show ?thesis
        using "1.IH" [OF False Nil] False Nil by (simp add: search_unfold_Nil)
    next
      case (Cons e es)
      then show ?thesis
        using False by (auto simp: search_unfold_Cons)
    qed
  qed
qed

lemma seg_of_append: "seg (u @ w @ v) (length u) (length u + length w) = w"
  by (simp add: seg_def)

lemma append_seg: "i \<le> e \<Longrightarrow> e \<le> length s \<Longrightarrow> s = take i s @ seg s i e @ drop e s"
proof -
  assume a: "i \<le> e" "e \<le> length s"
  have "seg s i e @ drop e s = drop i s"
  proof -
    have "take (e - i) (drop i s) @ drop (e - i) (drop i s) = drop i s"
      by (rule append_take_drop_id)
    then show ?thesis using a by (simp add: seg_def)
  qed
  then show ?thesis by simp
qed

lemma regex_test_lang:
  assumes "wordbFree r"
  shows "regex_test r s \<longleftrightarrow> (\<exists>w. sublist w s \<and> lang r w)"
proof
  assume "regex_test r s"
  then obtain j where j: "j \<le> length s" "ends r s j \<noteq> []"
    by (auto simp: regex_test_def search_None_iff)
  then obtain e where "e \<in> set (ends r s j)" by (cases "ends r s j") auto
  with ends_lang [OF assms j(1), of e]
  have e: "j \<le> e" "e \<le> length s" "lang r (seg s j e)" by simp_all
  have "s = take j s @ seg s j e @ drop e s" using append_seg [OF e(1,2)] .
  then have "sublist (seg s j e) s" unfolding sublist_def by blast
  with e(3) show "\<exists>w. sublist w s \<and> lang r w" by blast
next
  assume "\<exists>w. sublist w s \<and> lang r w"
  then obtain w u v where w: "s = u @ w @ v" "lang r w" by (auto simp: sublist_def)
  let ?j = "length u" and ?e = "length u + length w"
  have "seg s ?j ?e = w" using w(1) by (simp add: seg_of_append)
  moreover have "?j \<le> length s" "?e \<le> length s" using w(1) by simp_all
  ultimately have "?e \<in> set (ends r s ?j)"
    using ends_lang [OF assms, of ?j s ?e] w(2) by simp
  then have "ends r s ?j \<noteq> []" by auto
  then show "regex_test r s"
    using \<open>?j \<le> length s\<close> by (auto simp: regex_test_def search_None_iff)
qed

lemma lang_lits: "lang (lits t) w \<longleftrightarrow> w = js t"
  by (induction t arbitrary: w rule: lits.induct) (auto simp: js_def)

lemma lang_Seq_ChrI:
  "lang (Seq (ChrI c) r) w \<longleftrightarrow>
     (\<exists>x xs. w = x # xs \<and> canonicalize x = canonicalize (of_char c) \<and> lang r xs)"
proof
  assume "lang (Seq (ChrI c) r) w"
  then obtain u v x where "w = u @ v" "u = [x]" "canonicalize x = canonicalize (of_char c)" "lang r v"
    by auto
  then show "\<exists>x xs. w = x # xs \<and> canonicalize x = canonicalize (of_char c) \<and> lang r xs"
    by simp
next
  assume "\<exists>x xs. w = x # xs \<and> canonicalize x = canonicalize (of_char c) \<and> lang r xs"
  then obtain x xs where x: "w = [x] @ xs" "canonicalize x = canonicalize (of_char c)" "lang r xs"
    by auto
  have "lang (ChrI c) [x]" using x(2) by simp
  with x(1,3) show "lang (Seq (ChrI c) r) w" unfolding lang.simps(5) by blast
qed

lemma lang_litsI: "lang (litsI t) w \<longleftrightarrow> map canonicalize w = map canonicalize (js t)"
proof (induction t arbitrary: w rule: litsI.induct)
  case 1
  then show ?case by (simp add: js_def)
next
  case (2 c)
  then show ?case by (cases w) (auto simp: js_def)
next
  case (3 c v va)
  show ?case
  proof (cases w)
    case Nil
    then show ?thesis by (simp add: js_def)
  next
    case (Cons x xs)
    have "lang (litsI (c # v # va)) w \<longleftrightarrow>
            canonicalize x = canonicalize (of_char c) \<and> lang (litsI (v # va)) xs"
      using Cons by (simp only: litsI.simps lang_Seq_ChrI) simp
    then show ?thesis using 3 [of xs] Cons by (simp add: js_def)
  qed
qed

lemma lang_ws: "lang ws w \<longleftrightarrow> list_all is_space w"
proof
  assume "lang ws w"
  then obtain us where us: "w = concat us" "\<forall>u \<in> set us. \<exists>x. u = [x] \<and> is_space x"
    by (auto simp: ws_def)
  then show "list_all is_space w" by (auto simp: list_all_iff)
next
  assume "list_all is_space w"
  then have "w = concat (map (\<lambda>x. [x]) w) \<and> (\<forall>u \<in> set (map (\<lambda>x. [x]) w). \<exists>x. u = [x] \<and> is_space x)"
    by (induction w) auto
  then show "lang ws w" unfolding ws_def lang.simps in_cset.simps by blast
qed

subsection \<open>The mitigation heuristic\<close>

lemma wordbFree_lits [simp]: "wordbFree (lits t)"
  by (induction t rule: lits.induct) simp_all

lemma wordbFree_litsI [simp]: "wordbFree (litsI t)"
  by (induction t rule: litsI.induct) simp_all

lemma substring_lookback:
  "substring content (nat (max 0 (int i - 2000))) i = lookback content i"
proof -
  have a: "nat (max 0 (int i - 2000)) = i - 2000" by simp
  show ?thesis
    unfolding a substring_def lookback_def Let_def
    by (auto simp: drop_take min_def max_def)
qed

lemma sublist_map_iff: "sublist x (map f s) \<longleftrightarrow> (\<exists>w. sublist w s \<and> map f w = x)"
proof
  assume "sublist x (map f s)"
  then obtain ps ss where "map f s = ps @ (x @ ss)" by (auto simp: sublist_def)
  from this [THEN map_eq_append_conv [THEN iffD1]]
  obtain us vs where us: "s = us @ vs" "ps = map f us" "x @ ss = map f vs" by blast
  from us(3) [symmetric, THEN map_eq_append_conv [THEN iffD1]]
  obtain w ss' where w: "vs = w @ ss'" "x = map f w" "ss = map f ss'" by blast
  have "s = us @ w @ ss'" using us(1) w(1) by simp
  then have "sublist w s" unfolding sublist_def by blast
  with w(2) show "\<exists>w. sublist w s \<and> map f w = x" by blast
next
  assume "\<exists>w. sublist w s \<and> map f w = x"
  then obtain w ps ss where "s = ps @ w @ ss" "map f w = x" by (auto simp: sublist_def)
  then have "map f s = map f ps @ x @ map f ss" by simp
  then show "sublist x (map f s)" unfolding sublist_def by blast
qed

lemma test_lits: "regex_test (lits t) s \<longleftrightarrow> sublist (js t) s"
  by (simp add: regex_test_lang lang_lits)

lemma test_litsI:
  "regex_test (litsI t) s \<longleftrightarrow> sublist (map canonicalize (js t)) (map canonicalize s)"
  by (simp add: regex_test_lang lang_litsI sublist_map_iff)

lemma lang_spy:
  "lang (seqs [lits t, ws, Chr CHR ''('', ws, lits ''Date'']) w \<longleftrightarrow>
     (\<exists>a b. list_all is_space a \<and> list_all is_space b \<and> w = js t @ a @ js ''('' @ b @ js ''Date'')"
proof -
  have paren: "js ''('' = [of_char CHR ''('']" by (simp add: js_def)
  show ?thesis
    unfolding seqs.simps lang.simps(5) lang_lits lang_ws lang.simps(1) paren
    by (metis append.assoc)
qed

lemma test_spy:
  "regex_test (seqs [lits (lib @ ''.spyOn''), ws, Chr CHR ''('', ws, lits ''Date'']) s
     \<longleftrightarrow> spyOnDate lib s"
proof -
  have wf: "wordbFree (seqs [lits (lib @ ''.spyOn''), ws, Chr CHR ''('', ws, lits ''Date''])"
    by (simp add: ws_def)
  have j: "js (lib @ ''.spyOn'') = js lib @ js ''.spyOn''" by (simp add: js_def)
  show ?thesis
    unfolding regex_test_lang [OF wf] lang_spy spyOnDate_def j
    by (metis append.assoc)
qed

lemma isLikelyMocked_iff: "isLikelyMocked content i \<longleftrightarrow> hasMitigation (lookback content i)"
proof -
  have vi: "lits ''vi.spyOn'' = lits (''vi'' @ ''.spyOn'')"
    and jest: "lits ''jest.spyOn'' = lits (''jest'' @ ''.spyOn'')" by simp_all
  show ?thesis
    unfolding isLikelyMocked_def Let_def substring_lookback mockPatterns_def hasMitigation_def
      list_ex_Cons_iff list_ex_Nil_iff vi jest test_spy test_lits test_litsI
    by blast
qed

subsection \<open>The scanner as a function of the text\<close>

lemma scanPatterns_eq:
  "\<forall>p \<in> set pats. 0 < minlen (source (regex p)) \<Longrightarrow>
   scanPatterns fp c ls pats dets =
     Some (dets @ concat (map (\<lambda>p. map (makeDetection fp c ls p)
              (filter (\<lambda>m. FlakyPattern.severity p = High \<or> \<not> isLikelyMocked c (index m))
                 (globalMatches (source (regex p)) c))) pats),
           map (\<lambda>p. p\<lparr>regex := (regex p)\<lparr>lastIndex := 0\<rparr>\<rparr>) pats)"
proof (induction pats arbitrary: dets)
  case Nil
  then show ?case by simp
next
  case (Cons p pats)
  let ?p0 = "p\<lparr>regex := (regex p)\<lparr>lastIndex := 0\<rparr>\<rparr>"
  have m: "0 < minlen (source (regex ?p0))" using Cons.prems by simp
  have n: "Suc (length c) - lastIndex (regex ?p0) \<le> Suc (length c)" by simp
  have rest: "\<forall>p \<in> set pats. 0 < minlen (source (regex p))" using Cons.prems by simp
  show ?case
    by (simp add: scanPattern_eq [OF m n] Cons.IH [OF rest] globalMatches_def)
qed

lemma catalog_minlen: "p \<in> set FLAKY_PATTERNS \<Longrightarrow> 0 < minlen (source (regex p))"
  by (auto simp: FLAKY_PATTERNS_def global_def ws_def Plus_def Rep12_def Rep45_def)

lemma catalogState_minlen:
  assumes "catalogState pats" "p \<in> set pats"
  shows "0 < minlen (source (regex p))"
proof -
  have "p\<lparr>regex := (regex p)\<lparr>lastIndex := 0\<rparr>\<rparr> \<in> set FLAKY_PATTERNS"
    using assms unfolding catalogState_def by (metis (no_types, lifting) image_eqI list.set_map)
  from catalog_minlen [OF this] show ?thesis by simp
qed

lemma scanFile_eq:
  assumes "catalogState (patterns w)" "readFileSync fs fp = Some c"
  shows "scanFile fs fp w = Some (detectionsOf fp c, w\<lparr>patterns := FLAKY_PATTERNS\<rparr>)"
proof -
  let ?F = "\<lambda>p. map (makeDetection fp c (split_nl c) p)
              (filter (\<lambda>m. FlakyPattern.severity p = High \<or> \<not> isLikelyMocked c (index m))
                 (globalMatches (source (regex p)) c))"
  let ?R = "\<lambda>p. p\<lparr>regex := (regex p)\<lparr>lastIndex := 0\<rparr>\<rparr>"
  have ml: "\<forall>p \<in> set (patterns w). 0 < minlen (source (regex p))"
    using catalogState_minlen [OF assms(1)] by blast
  have R: "map ?R (patterns w) = FLAKY_PATTERNS" using assms(1) by (simp add: catalogState_def)
  have "\<And>p. ?F p = ?F (?R p)" by simp
  then have "map ?F (patterns w) = map ?F (map ?R (patterns w))" by (simp add: comp_def)
  then have F: "concat (map ?F (patterns w)) = detectionsOf fp c"
    unfolding R by (simp add: detectionsOf_def acceptedMatches_def isLikelyMocked_iff)
  show ?thesis
    unfolding scanFile_def assms(2) option.case scanPatterns_eq [OF ml] R
    using F by simp
qed

lemma scanFile_unreadable:
  "readFileSync fs fp = None \<Longrightarrow>
   scanFile fs fp w =
     Some ([], w\<lparr>stderr := stderr w @ [js ''Error scanning '' @ path_str fp @ js '':'']\<rparr>)"
  by (simp add: scanFile_def)

subsection \<open>The examples\<close>

lemma detectionsOf_code: "detectionsOf fp c = scanContent fp c"
  by (simp add: detectionsOf_def scanContent_def acceptedMatches_def isLikelyMocked_iff)

lemma example_scan: "scanContent [js ''a.test.ts''] exampleContent = [exampleDetection]"
  by code_simp

lemma catalog_lastIndex: "map (\<lambda>p. p\<lparr>regex := (regex p)\<lparr>lastIndex := 0\<rparr>\<rparr>) FLAKY_PATTERNS = FLAKY_PATTERNS"
  by (simp add: FLAKY_PATTERNS_def global_def)

lemma catalogState_catalog: "catalogState FLAKY_PATTERNS"
  by (simp add: catalogState_def catalog_lastIndex)

lemma catalogState_exampleWorld: "catalogState (patterns exampleWorld)"
  by (simp add: exampleWorld_def catalogState_catalog)

lemma catalogState_usedWorld: "catalogState (patterns usedWorld)"
  by (simp add: usedWorld_def catalogState_def comp_def catalog_lastIndex)

lemma example_read: "readFileSync exampleFs [js ''a.test.ts''] = Some exampleContent"
  by (simp add: readFileSync_def exampleFs_def js_def)

subsection \<open>Termination of the scan of one file\<close>

lemma scanFile_total:
  assumes "catalogState (patterns w)"
  shows "\<exists>ds w'. scanFile fs fp w = Some (ds, w') \<and> catalogState (patterns w')"
proof (cases "readFileSync fs fp")
  case None
  then show ?thesis using assms by (simp add: scanFile_unreadable)
next
  case (Some c)
  then show ?thesis using scanFile_eq [OF assms Some] by (simp add: catalogState_catalog)
qed

lemma exec_progress:
  assumes "0 < minlen (source re)" "exec re s = (Some m, re')"
  shows "matched m \<noteq> [] \<and> lastIndex re < lastIndex re' \<and> lastIndex re' \<le> length s"
proof (cases "search (source re) s (lastIndex re)")
  case None
  with assms(2) show ?thesis by (simp add: exec_def)
next
  case (Some je)
  obtain j e where je: "je = (j, e)" by (cases je)
  from search_Some [OF Some [unfolded je]] assms(1)
  have b: "lastIndex re \<le> j" "j < e" "e \<le> length s" by simp_all
  have "length (take (e - j) (drop j s)) = e - j" using b by simp
  then have "take (e - j) (drop j s) \<noteq> []" using b by auto
  with assms(2) Some je b show ?thesis by (auto simp: exec_def)
qed

subsection \<open>Independence of the state of the catalog\<close>

lemma makeDetection_erase_path:
  "(makeDetection fp c ls p m)\<lparr>file_path := q\<rparr> = makeDetection q c ls p m"
  by (simp add: makeDetection_def Let_def)

lemma detectionsOf_erase_path:
  "map (\<lambda>d. d\<lparr>file_path := q\<rparr>) (detectionsOf fp c) = detectionsOf q c"
  by (simp add: detectionsOf_def map_concat comp_def makeDetection_erase_path)

lemma scanFile_cases:
  assumes "catalogState (patterns w)"
  shows "\<exists>w'. scanFile fs fp w =
           Some (case readFileSync fs fp of None \<Rightarrow> [] | Some c \<Rightarrow> detectionsOf fp c, w')
         \<and> catalogState (patterns w')"
proof (cases "readFileSync fs fp")
  case None
  then show ?thesis using assms by (simp add: scanFile_unreadable)
next
  case (Some c)
  then show ?thesis using scanFile_eq [OF assms Some] by (simp add: catalogState_catalog)
qed

subsection \<open>Line numbers\<close>

lemma substring_0: "substring c 0 i = take i c"
  by (simp add: substring_def Let_def min_def)

lemma split_nl_nonempty: "split_nl s \<noteq> []"
  by (induction s) (auto split: list.splits)

lemma length_split_nl: "length (split_nl s) = Suc (length (filter (\<lambda>x. x = 10) s))"
proof (induction s)
  case Nil
  then show ?case by simp
next
  case (Cons c cs)
  then show ?case
    using split_nl_nonempty [of cs] by (cases "split_nl cs") auto
qed

lemma line_makeDetection:
  "line (makeDetection fp c ls p m) = Suc (newlinesBefore c (index m))"
  by (simp add: makeDetection_def Let_def substring_0 length_split_nl newlinesBefore_def)

lemma join_nl_Cons: "ls \<noteq> [] \<Longrightarrow> join_nl (l # ls) = l @ 10 # join_nl ls"
  by (cases ls) simp_all

lemma newlines_on_line:
  "\<forall>l \<in> set ls. 10 \<notin> set l \<Longrightarrow> 1 \<le> N \<Longrightarrow> N \<le> length ls \<Longrightarrow> k \<le> length (ls ! (N - 1)) \<Longrightarrow>
   Suc (newlinesBefore (join_nl ls) (lineOffset ls N + k)) = N"
proof (induction ls arbitrary: N)
  case Nil
  then show ?case by simp
next
  case (Cons l ls)
  have nl: "filter (\<lambda>x. x = 10) l = []" using Cons.prems(1) by (auto simp: filter_empty_conv)
  show ?case
  proof (cases "N = 1")
    case True
    then have k: "k \<le> length l" using Cons.prems(4) by simp
    have "take k (join_nl (l # ls)) = take k l"
      using k by (cases ls) simp_all
    moreover have "filter (\<lambda>x. x = 10) (take k l) = []"
      using Cons.prems(1) by (auto simp: filter_empty_conv dest: in_set_takeD)
    ultimately show ?thesis using True by (simp add: newlinesBefore_def lineOffset_def)
  next
    case False
    with Cons.prems obtain M where M: "N = Suc M" "1 \<le> M" "M \<le> length ls"
      by (cases N) auto
    then have ne: "ls \<noteq> []" by auto
    have k: "k \<le> length (ls ! (M - 1))" using Cons.prems(4) M by (cases M) simp_all
    have off: "lineOffset (l # ls) N = Suc (length l) + lineOffset ls M"
      using M by (cases M) (simp_all add: lineOffset_def)
    have "take (lineOffset (l # ls) N + k) (join_nl (l # ls))
            = l @ 10 # take (lineOffset ls M + k) (join_nl ls)"
      unfolding off join_nl_Cons [OF ne] by simp
    then have "newlinesBefore (join_nl (l # ls)) (lineOffset (l # ls) N + k)
                 = Suc (newlinesBefore (join_nl ls) (lineOffset ls M + k))"
      by (simp add: newlinesBefore_def nl)
    moreover have "Suc (newlinesBefore (join_nl ls) (lineOffset ls M + k)) = M"
      using Cons.IH [OF _ M(2,3) k] Cons.prems(1) by simp
    ultimately show ?thesis using M by simp
  qed
qed

lemma list_all2_concat_map:
  assumes "\<And>p m. P (F p m) m"
  shows "list_all2 P (concat (map (\<lambda>p. map (F p) (A p)) ps)) (concat (map A ps))"
proof (induction ps)
  case Nil
  then show ?case by simp
next
  case (Cons p ps)
  have "list_all2 P (map (F p) (A p)) (A p)"
    using assms by (simp add: list_all2_map1 list_all2_same)
  with Cons show ?case by (simp add: list_all2_appendI)
qed

lemma example_accepted:
  "concat (map (\<lambda>p. acceptedMatches p exampleContent) FLAKY_PATTERNS)
     = [\<lparr>index = 20, matched = js ''ttlSeconds=1''\<rparr>]"
proof -
  have "concat (map (\<lambda>p. filter (\<lambda>m. FlakyPattern.severity p = High
                                       \<or> \<not> isLikelyMocked exampleContent (index m))
                            (globalMatches (source (regex p)) exampleContent)) FLAKY_PATTERNS)
          = [\<lparr>index = 20, matched = js ''ttlSeconds=1''\<rparr>]"
    by code_simp
  then show ?thesis by (simp add: acceptedMatches_def isLikelyMocked_iff)
qed

subsection \<open>The discovered paths\<close>

lemma find_paths:
  "findTestFiles node dir files = Inr out \<Longrightarrow>
     \<exists>new. out = files @ new
       \<and> (\<forall>p \<in> set new. \<exists>rel. p = dir @ rel \<and> rel \<noteq> []
              \<and> (\<forall>n \<in> set (butlast rel). n \<notin> set ignoreList))"
  "forEntries entries dir files = Inr out \<Longrightarrow>
     \<exists>new. out = files @ new \<and> (\<forall>p \<in> set new. underDir entries dir p)"
proof (induction node dir files and entries dir files arbitrary: out and out
       rule: findTestFiles_forEntries.induct)
  case (2 entries dir files)
  from "2.prems" have "forEntries entries dir files = Inr out" by simp
  from "2.IH" [OF this] obtain new where
    new: "out = files @ new" "\<forall>p \<in> set new. underDir entries dir p" by blast
  have "\<forall>p \<in> set new. \<exists>rel. p = dir @ rel \<and> rel \<noteq> []
          \<and> (\<forall>n \<in> set (butlast rel). n \<notin> set ignoreList)"
  proof
    fix p assume "p \<in> set new"
    with new(2) obtain nm rel where
      "p = dir @ nm # rel" "\<forall>n \<in> set (butlast (nm # rel)). n \<notin> set ignoreList"
      unfolding underDir_def by blast
    then show "\<exists>rel. p = dir @ rel \<and> rel \<noteq> [] \<and> (\<forall>n \<in> set (butlast rel). n \<notin> set ignoreList)"
      by blast
  qed
  with new(1) show ?case by blast
next
  case (5 nm node rest dir files)
  have up: "\<And>p. underDir rest dir p \<Longrightarrow> underDir ((nm, node) # rest) dir p"
  proof -
    fix p assume "underDir rest dir p"
    then obtain n r where
      nr: "p = dir @ n # r" "n \<in> fst ` set rest" "\<forall>x \<in> set (butlast (n # r)). x \<notin> set ignoreList"
      unfolding underDir_def by blast
    from nr(2) have "n \<in> fst ` set ((nm, node) # rest)" by auto
    with nr(1,3) show "underDir ((nm, node) # rest) dir p" unfolding underDir_def by blast
  qed
  show ?case
  proof (cases "isDirectory node")
    case True
    show ?thesis
    proof (cases "nm \<in> set ignoreList")
      case ign: True
      with True "5.prems" have "forEntries rest dir files = Inr out" by simp
      from "5.IH"(1) [OF refl True ign this] up show ?thesis by blast
    next
      case ign: False
      with True "5.prems" obtain files' where
        f: "findTestFiles (Some node) (dir @ [nm]) files = Inr files'"
           "forEntries rest dir files' = Inr out"
        by (auto simp: Let_def split: sum.splits)
      from "5.IH"(2) [OF refl True ign f(1)] obtain new1 where
        n1: "files' = files @ new1"
            "\<forall>p \<in> set new1. \<exists>rel. p = (dir @ [nm]) @ rel \<and> rel \<noteq> []
                \<and> (\<forall>n \<in> set (butlast rel). n \<notin> set ignoreList)" by blast
      from "5.IH"(3) [OF refl True ign f(1) f(2)] obtain new2 where
        n2: "out = files' @ new2" "\<forall>p \<in> set new2. underDir rest dir p" by blast
      have "\<forall>p \<in> set new1. underDir ((nm, node) # rest) dir p"
      proof
        fix p assume "p \<in> set new1"
        with n1(2) obtain rel where
          rel: "p = (dir @ [nm]) @ rel" "rel \<noteq> []" "\<forall>n \<in> set (butlast rel). n \<notin> set ignoreList"
          by blast
        have "\<forall>n \<in> set (butlast (nm # rel)). n \<notin> set ignoreList"
          using rel(2,3) ign by simp
        with rel(1) show "underDir ((nm, node) # rest) dir p"
          unfolding underDir_def by force
      qed
      with n1(1) n2 up have "out = files @ (new1 @ new2)
          \<and> (\<forall>p \<in> set (new1 @ new2). underDir ((nm, node) # rest) dir p)" by auto
      then show ?thesis by blast
    qed
  next
    case False
    show ?thesis
    proof (cases "isFile node \<and> isTestFileName nm")
      case t: True
      with False "5.prems" have "forEntries rest dir (files @ [dir @ [nm]]) = Inr out"
        by (simp add: Let_def)
      from "5.IH"(4) [OF refl False t this] obtain new where
        n: "out = (files @ [dir @ [nm]]) @ new" "\<forall>p \<in> set new. underDir rest dir p" by blast
      have "underDir ((nm, node) # rest) dir (dir @ [nm])"
        unfolding underDir_def by force
      with n up have "out = files @ ((dir @ [nm]) # new)
          \<and> (\<forall>p \<in> set ((dir @ [nm]) # new). underDir ((nm, node) # rest) dir p)" by auto
      then show ?thesis by blast
    next
      case t: False
      with False "5.prems" have "forEntries rest dir files = Inr out"
        by (auto simp: Let_def)
      from "5.IH"(5) [OF refl False t this] up show ?thesis by blast
    qed
  qed
qed simp_all

subsection \<open>No path is discovered twice\<close>

lemma underDir_head:
  "underDir entries dir p \<Longrightarrow> \<exists>nm rel. p = dir @ nm # rel \<and> nm \<in> fst ` set entries"
  unfolding underDir_def by blast

lemma find_distinct:
  "findTestFiles node dir files = Inr out \<Longrightarrow> (\<forall>n. node = Some n \<longrightarrow> distinctNames n) \<Longrightarrow>
     \<exists>new. out = files @ new \<and> distinct new"
  "forEntries entries dir files = Inr out \<Longrightarrow> distinct (map fst entries) \<Longrightarrow>
     (\<forall>e \<in> set entries. distinctNames (snd e)) \<Longrightarrow>
     \<exists>new. out = files @ new \<and> distinct new"
proof (induction node dir files and entries dir files arbitrary: out and out
       rule: findTestFiles_forEntries.induct)
  case (2 entries dir files)
  from "2.prems" have "forEntries entries dir files = Inr out"
    "distinct (map fst entries)" "\<forall>e \<in> set entries. distinctNames (snd e)" by simp_all
  from "2.IH" [OF this] show ?case .
next
  case (5 nm node rest dir files)
  from "5.prems"(2) have d12: "nm \<notin> fst ` set rest" "distinct (map fst rest)" by simp_all
  from "5.prems"(3) have d34: "\<forall>e \<in> set rest. distinctNames (snd e)" "distinctNames node"
    by simp_all
  note d = d12 d34
  have sep: "\<And>new rel. \<forall>p \<in> set new. underDir rest dir p \<Longrightarrow> dir @ nm # rel \<notin> set new"
  proof
    fix new rel assume a: "\<forall>p \<in> set new. underDir rest dir p" "dir @ nm # rel \<in> set new"
    then have "underDir rest dir (dir @ nm # rel)" by blast
    from underDir_head [OF this] obtain n r where
      "dir @ nm # rel = dir @ n # r" "n \<in> fst ` set rest" by blast
    with d(1) show False by simp
  qed
  show ?case
  proof (cases "isDirectory node")
    case True
    show ?thesis
    proof (cases "nm \<in> set ignoreList")
      case ign: True
      with True "5.prems" have "forEntries rest dir files = Inr out" by simp
      from "5.IH"(1) [OF refl True ign this d(2,3)] show ?thesis .
    next
      case ign: False
      with True "5.prems" obtain files' where
        f: "findTestFiles (Some node) (dir @ [nm]) files = Inr files'"
           "forEntries rest dir files' = Inr out"
        by (auto simp: Let_def split: sum.splits)
      from "5.IH"(2) [OF refl True ign f(1)] d(4) obtain new1 where
        n1: "files' = files @ new1" "distinct new1" by auto
      from "5.IH"(3) [OF refl True ign f(1) f(2) d(2,3)] obtain new2 where
        n2: "out = files' @ new2" "distinct new2" by blast
      from find_paths(1) [OF f(1)] n1(1) have p1:
        "\<forall>p \<in> set new1. \<exists>rel. p = (dir @ [nm]) @ rel" by auto
      from find_paths(2) [OF f(2)] n2(1) have p2: "\<forall>p \<in> set new2. underDir rest dir p" by auto
      have "set new1 \<inter> set new2 = {}"
      proof (rule ccontr)
        assume "set new1 \<inter> set new2 \<noteq> {}"
        then obtain p where p: "p \<in> set new1" "p \<in> set new2" by blast
        from p1 p(1) obtain rel where "p = dir @ nm # rel" by auto
        with sep [OF p2] p(2) show False by blast
      qed
      with n1 n2 have "out = files @ (new1 @ new2) \<and> distinct (new1 @ new2)" by simp
      then show ?thesis by blast
    qed
  next
    case False
    show ?thesis
    proof (cases "isFile node \<and> isTestFileName nm")
      case t: True
      with False "5.prems" have f: "forEntries rest dir (files @ [dir @ [nm]]) = Inr out"
        by (simp add: Let_def)
      from "5.IH"(4) [OF refl False t this d(2,3)] obtain new where
        n: "out = (files @ [dir @ [nm]]) @ new" "distinct new" by blast
      from find_paths(2) [OF f] n(1) have "\<forall>p \<in> set new. underDir rest dir p" by auto
      from sep [OF this, of "[]"] have "dir @ [nm] \<notin> set new" by simp
      with n have "out = files @ ((dir @ [nm]) # new) \<and> distinct ((dir @ [nm]) # new)" by simp
      then show ?thesis by blast
    next
      case t: False
      with False "5.prems" have "forEntries rest dir files = Inr out"
        by (auto simp: Let_def)
      from "5.IH"(5) [OF refl False t this d(2,3)] show ?thesis .
    qed
  qed
qed simp_all

lemma lookup_distinctNames:
  "distinctNames fs \<Longrightarrow> lookup fs p = Some n \<Longrightarrow> distinctNames n"
proof (induction fs p rule: lookup.induct)
  case (1 n')
  then show ?case by simp
next
  case (2 entries c cs)
  from "2.prems"(2) obtain child where
    c: "map_of entries c = Some child" "lookup child cs = Some n"
    by (auto split: option.splits)
  from c(1) have "(c, child) \<in> set entries" by (rule map_of_SomeD)
  with "2.prems"(1) have "distinctNames child" by auto
  from "2.IH" [OF c(1) this c(2)] show ?case .
qed simp_all

lemma findTestFiles_distinct:
  assumes "distinctNames fs" "findTestFiles (lookup fs dir) dir [] = Inr files"
  shows "distinct files"
proof -
  have "\<forall>n. lookup fs dir = Some n \<longrightarrow> distinctNames n"
    using lookup_distinctNames [OF assms(1)] by blast
  from find_distinct(1) [OF assms(2) this] show ?thesis by simp
qed

lemma example_discovery:
  "findTestFiles (lookup exampleFs []) [] [] = Inr [[js ''a.test.ts'']]"
  by code_simp

subsection \<open>The empty report\<close>

lemma markdown_zero:
  "totalDetections r = 0 \<Longrightarrow>
   formatAsMarkdown r =
     js ''## Flaky Test Analysis\<newline>\<newline>Scanned **'' @ digits10 (scannedFiles r)
       @ js ''** test files, found **0** potential flaky patterns.\<newline>\<newline>''
       @ allClear @ js ''\<newline>''"
  by (simp add: formatAsMarkdown_def mdHeader_def allClear_def js_def digits10.simps [of 0])

subsection \<open>The aggregator in closed form\<close>

lemma scanFile_fileDetections:
  assumes "catalogState (patterns w)"
  shows "\<exists>w'. scanFile fs f w = Some (fileDetections fs f, w') \<and> catalogState (patterns w')"
  using scanFile_cases [OF assms, of fs f] by (simp add: fileDetections_def)

lemma mapSet_fresh: "k \<notin> fst ` set m \<Longrightarrow> mapSet k v m = m @ [(k, v)]"
  by (induction m) auto

lemma scanFiles_eq:
  "catalogState (patterns w) \<Longrightarrow> distinct files \<Longrightarrow> set files \<inter> fst ` set byF = {} \<Longrightarrow>
   \<exists>w'. scanFiles fs files acc byF w =
          Some ((acc @ concat (map (fileDetections fs) files),
                 byF @ map (\<lambda>f. (f, fileDetections fs f))
                         (filter (\<lambda>f. fileDetections fs f \<noteq> []) files)), w')
        \<and> catalogState (patterns w')"
proof (induction files arbitrary: acc byF w)
  case Nil
  then show ?case by simp
next
  case (Cons f files)
  from scanFile_fileDetections [OF Cons.prems(1), of fs f] obtain w1 where
    w1: "scanFile fs f w = Some (fileDetections fs f, w1)" "catalogState (patterns w1)" by blast
  from Cons.prems(2) have df: "distinct files" "f \<notin> set files" by simp_all
  from Cons.prems(3) have fresh: "f \<notin> fst ` set byF" "set files \<inter> fst ` set byF = {}" by auto
  show ?case
  proof (cases "fileDetections fs f = []")
    case True
    from Cons.IH [OF w1(2) df(1) fresh(2), of acc] obtain w' where
      "scanFiles fs files acc byF w1 =
          Some ((acc @ concat (map (fileDetections fs) files),
                 byF @ map (\<lambda>f. (f, fileDetections fs f))
                         (filter (\<lambda>f. fileDetections fs f \<noteq> []) files)), w')"
      "catalogState (patterns w')" by blast
    then show ?thesis using w1(1) True by simp
  next
    case False
    let ?byF = "byF @ [(f, fileDetections fs f)]"
    have "set files \<inter> fst ` set ?byF = {}" using fresh(2) df(2) by auto
    from Cons.IH [OF w1(2) df(1) this, of "acc @ fileDetections fs f"] obtain w' where
      "scanFiles fs files (acc @ fileDetections fs f) ?byF w1 =
          Some (((acc @ fileDetections fs f) @ concat (map (fileDetections fs) files),
                 ?byF @ map (\<lambda>f. (f, fileDetections fs f))
                         (filter (\<lambda>f. fileDetections fs f \<noteq> []) files)), w')"
      "catalogState (patterns w')" by blast
    then show ?thesis using w1(1) False by (simp add: mapSet_fresh [OF fresh(1)])
  qed
qed

lemma scanDirectory_eq:
  assumes "catalogState (patterns w)" "distinct files"
    and "findTestFiles (lookup fs dir) dir [] = Inr files"
  shows "\<exists>w'. scanDirectory fs dir w = Some (Inr (resultOf fs files), w')
           \<and> catalogState (patterns w')"
proof -
  from scanFiles_eq [OF assms(1,2), of "[]" fs "[]"] obtain w' where
    "scanFiles fs files [] [] w =
       Some ((concat (map (fileDetections fs) files),
              map (\<lambda>f. (f, fileDetections fs f))
                (filter (\<lambda>f. fileDetections fs f \<noteq> []) files)), w')"
    "catalogState (patterns w')" by auto
  then show ?thesis
    by (simp add: scanDirectory_def assms(3) resultOf_def Let_def)
qed

lemma scanDirectory_error:
  "findTestFiles (lookup fs dir) dir [] = Inl e \<Longrightarrow> scanDirectory fs dir w = Some (Inl e, w)"
  by (simp add: scanDirectory_def)

subsection \<open>Groupings\<close>

lemma severity_partition_length:
  "length (filter (\<lambda>d. Detection.severity d = High) ds)
     + length (filter (\<lambda>d. Detection.severity d = Medium) ds)
     + length (filter (\<lambda>d. Detection.severity d = Low) ds) = length ds"
proof (induction ds)
  case Nil
  then show ?case by simp
next
  case (Cons d ds)
  then show ?case by (cases "Detection.severity d") simp_all
qed

lemma severity_partition_count:
  "count_list (filter (\<lambda>d. Detection.severity d = High) ds) x
     + count_list (filter (\<lambda>d. Detection.severity d = Medium) ds) x
     + count_list (filter (\<lambda>d. Detection.severity d = Low) ds) x = count_list ds x"
proof (induction ds)
  case Nil
  then show ?case by simp
next
  case (Cons d ds)
  then show ?case by (cases "Detection.severity d") simp_all
qed

lemma concat_groups:
  "concat (map snd (map (\<lambda>f. (f, D f)) (filter (\<lambda>f. D f \<noteq> []) files))) = concat (map D files)"
  by (induction files) simp_all

lemma detectionsOf_member:
  assumes "d \<in> set (detectionsOf f c)"
  shows "file_path d = f
         \<and> (\<exists>p \<in> set FLAKY_PATTERNS. pattern d = name p
               \<and> Detection.severity d = FlakyPattern.severity p
               \<and> Detection.risk d = FlakyPattern.risk p
               \<and> Detection.fix_text d = FlakyPattern.fix_text p)"
proof -
  from assms obtain p m where
    "p \<in> set FLAKY_PATTERNS" "d = makeDetection f c (split_nl c) p m"
    unfolding detectionsOf_def by auto
  then show ?thesis by (auto simp: makeDetection_def Let_def)
qed

lemma fileDetections_member:
  assumes "d \<in> set (fileDetections fs f)"
  shows "file_path d = f
         \<and> (\<exists>p \<in> set FLAKY_PATTERNS. pattern d = name p
               \<and> Detection.severity d = FlakyPattern.severity p
               \<and> Detection.risk d = FlakyPattern.risk p
               \<and> Detection.fix_text d = FlakyPattern.fix_text p)"
proof (cases "readFileSync fs f")
  case None
  with assms show ?thesis by (simp add: fileDetections_def)
next
  case (Some c)
  with assms have "d \<in> set (detectionsOf f c)" by (simp add: fileDetections_def)
  then show ?thesis by (rule detectionsOf_member)
qed

lemma catalog_names_distinct: "distinct (map name FLAKY_PATTERNS)"
  by code_simp

lemma scanDirectory_result:
  assumes "catalogState (patterns w)" and "distinctNames fs"
    and "scanDirectory fs dir w = Some (Inr r, w')"
  shows "\<exists>files. findTestFiles (lookup fs dir) dir [] = Inr files \<and> distinct files
           \<and> r = resultOf fs files"
proof (cases "findTestFiles (lookup fs dir) dir []")
  case (Inl e)
  with assms(3) show ?thesis by (simp add: scanDirectory_error)
next
  case (Inr files)
  have d: "distinct files" using findTestFiles_distinct [OF assms(2) Inr] .
  from scanDirectory_eq [OF assms(1) d Inr, of ] assms(3) have "r = resultOf fs files" by auto
  with Inr d show ?thesis by blast
qed

lemma example_distinctNames: "distinctNames exampleFs"
  by code_simp

lemma example_fileDetections: "fileDetections exampleFs [js ''a.test.ts''] = [exampleDetection]"
  by (simp add: fileDetections_def example_read detectionsOf_code example_scan)

lemma example_severity: "Detection.severity exampleDetection = High"
  by (simp add: exampleDetection_def)

lemma example_resultOf: "resultOf exampleFs [[js ''a.test.ts'']] = exampleResult"
  by (simp add: resultOf_def Let_def example_fileDetections exampleResult_def example_severity)

lemma example_scanDirectory:
  assumes "catalogState (patterns w)"
  shows "\<exists>w'. scanDirectory exampleFs [] w = Some (Inr exampleResult, w')"
  using scanDirectory_eq [OF assms _ example_discovery] by (auto simp: example_resultOf)

subsection \<open>The command line\<close>


lemma announce_patterns [simp]: "patterns (announce d args w) = patterns w"
  by (simp add: announce_def consoleError_def)

subsection \<open>A walk that finds no test file\<close>

lemma testless_walk:
  "listable n \<Longrightarrow> \<not> hasTestFile n \<Longrightarrow> node = Some n \<Longrightarrow>
     findTestFiles node dir files = Inr files"
  "\<forall>e \<in> set entries. isDirectory (snd e) \<and> fst e \<notin> set ignoreList \<longrightarrow> listable (snd e) \<Longrightarrow>
   \<not> (\<exists>e \<in> set entries.
        (\<not> isDirectory (snd e) \<and> isFile (snd e) \<and> isTestFileName (fst e))
        \<or> (isDirectory (snd e) \<and> fst e \<notin> set ignoreList \<and> hasTestFile (snd e))) \<Longrightarrow>
     forEntries entries dir files = Inr files"
proof (induction node dir files and entries dir files arbitrary: n
       rule: findTestFiles_forEntries.induct)
  case (2 entries dir files)
  from "2.prems"(3) have n: "n = Dir (Some entries)" by simp
  from "2.prems"(1) have l:
    "\<forall>e \<in> set entries. isDirectory (snd e) \<and> fst e \<notin> set ignoreList \<longrightarrow> listable (snd e)"
    unfolding n by simp
  from "2.prems"(2) have t: "\<not> (\<exists>e \<in> set entries.
        (\<not> isDirectory (snd e) \<and> isFile (snd e) \<and> isTestFileName (fst e))
        \<or> (isDirectory (snd e) \<and> fst e \<notin> set ignoreList \<and> hasTestFile (snd e)))"
    unfolding n by simp
  from "2.IH" [OF l t] show ?case by simp
next
  case (5 nm node rest dir files)
  from "5.prems"(1) have l:
    "isDirectory node \<and> nm \<notin> set ignoreList \<longrightarrow> listable node"
    "\<forall>e \<in> set rest. isDirectory (snd e) \<and> fst e \<notin> set ignoreList \<longrightarrow> listable (snd e)"
    by simp_all
  from "5.prems"(2) have t:
    "\<not> (\<not> isDirectory node \<and> isFile node \<and> isTestFileName nm)"
    "\<not> (isDirectory node \<and> nm \<notin> set ignoreList \<and> hasTestFile node)"
    "\<not> (\<exists>e \<in> set rest.
        (\<not> isDirectory (snd e) \<and> isFile (snd e) \<and> isTestFileName (fst e))
        \<or> (isDirectory (snd e) \<and> fst e \<notin> set ignoreList \<and> hasTestFile (snd e)))"
    by simp_all
  show ?case
  proof (cases "isDirectory node")
    case True
    show ?thesis
    proof (cases "nm \<in> set ignoreList")
      case ign: True
      from "5.IH"(1) [OF refl True ign l(2) t(3)] True ign show ?thesis by simp
    next
      case ign: False
      from l(1) t(2) True ign have ln: "listable node" "\<not> hasTestFile node" by simp_all
      from "5.IH"(2) [OF refl True ign ln refl]
      have f: "findTestFiles (Some node) (dir @ [nm]) files = Inr files" .
      from "5.IH"(3) [OF refl True ign f l(2) t(3)] f True ign show ?thesis
        by (simp add: Let_def)
    qed
  next
    case False
    with t(1) have nt: "\<not> (isFile node \<and> isTestFileName nm)" by simp
    from "5.IH"(5) [OF refl False nt l(2) t(3)] False nt show ?thesis
      by (auto simp: Let_def)
  qed
qed auto

lemma scanDirectory_no_files:
  "findTestFiles (lookup fs dir) dir [] = Inr [] \<Longrightarrow>
   scanDirectory fs dir w = Some (Inr emptyResult, w)"
  by (simp add: scanDirectory_def emptyResult_def)

lemma example_locked: "findTestFiles (lookup lockedFs []) [] [] = Inl (ReaddirFailed [js ''locked''])"
  by code_simp

lemma example_locked_testless: "\<not> hasTestFile lockedFs"
  by code_simp

lemma example_testless: "listable testlessFs \<and> \<not> hasTestFile testlessFs"
  by code_simp

subsection \<open>Detections and the rule firings behind them\<close>

lemma list_all2_concat_maps:
  "(\<And>x. x \<in> set xs \<Longrightarrow> list_all2 P (F x) (G x)) \<Longrightarrow>
   list_all2 P (concat (map F xs)) (concat (map G xs))"
proof (induction xs)
  case Nil
  then show ?case by simp
next
  case (Cons x xs)
  have "list_all2 P (F x) (G x)" using Cons.prems by simp
  moreover have "list_all2 P (concat (map F xs)) (concat (map G xs))"
    using Cons.IH Cons.prems by simp
  ultimately show ?case by (simp add: list_all2_appendI)
qed

lemma makeDetection_fields:
  "file_path (makeDetection f c ls p m) = f"
  "pattern (makeDetection f c ls p m) = name p"
  "Detection.severity (makeDetection f c ls p m) = FlakyPattern.severity p"
  "Detection.risk (makeDetection f c ls p m) = FlakyPattern.risk p"
  "Detection.fix_text (makeDetection f c ls p m) = FlakyPattern.fix_text p"
  "matchedText (makeDetection f c ls p m) = matched m"
  by (simp_all add: makeDetection_def Let_def)

lemma detections_firings:
  "list_all2
     (\<lambda>d (f, c, p, m).
        file_path d = f \<and> pattern d = name p
        \<and> Detection.severity d = FlakyPattern.severity p
        \<and> Detection.risk d = FlakyPattern.risk p
        \<and> Detection.fix_text d = FlakyPattern.fix_text p
        \<and> matchedText d = matched m
        \<and> line d = Suc (newlinesBefore c (index m)))
     (concat (map (fileDetections fs) files)) (firings fs files)"
  unfolding firings_def
proof (rule list_all2_concat_maps)
  fix f assume "f \<in> set files"
  let ?P = "\<lambda>d (f, c, p, m).
        file_path d = f \<and> pattern d = name p
        \<and> Detection.severity d = FlakyPattern.severity p
        \<and> Detection.risk d = FlakyPattern.risk p
        \<and> Detection.fix_text d = FlakyPattern.fix_text p
        \<and> matchedText d = matched m
        \<and> line d = Suc (newlinesBefore c (index m))"
  show "list_all2 ?P (fileDetections fs f)
          (case readFileSync fs f of
             None \<Rightarrow> []
           | Some c \<Rightarrow> concat (map (\<lambda>p. map (\<lambda>m. (f, c, p, m)) (acceptedMatches p c))
                              FLAKY_PATTERNS))"
  proof (cases "readFileSync fs f")
    case None
    then show ?thesis by (simp add: fileDetections_def)
  next
    case (Some c)
    have "list_all2 ?P
            (concat (map (\<lambda>p. map (makeDetection f c (split_nl c) p) (acceptedMatches p c))
                       FLAKY_PATTERNS))
            (concat (map (\<lambda>p. map (\<lambda>m. (f, c, p, m)) (acceptedMatches p c)) FLAKY_PATTERNS))"
    proof (rule list_all2_concat_maps)
      fix p
      show "list_all2 ?P (map (makeDetection f c (split_nl c) p) (acceptedMatches p c))
              (map (\<lambda>m. (f, c, p, m)) (acceptedMatches p c))"
        by (simp add: list_all2_map1 list_all2_map2 list_all2_same makeDetection_fields
              line_makeDetection)
    qed
    then show ?thesis using Some by (simp add: fileDetections_def detectionsOf_def)
  qed
qed

lemma firings_member:
  assumes "(f, c, p, m) \<in> set (firings fs files)"
  shows "f \<in> set files \<and> readFileSync fs f = Some c \<and> p \<in> set FLAKY_PATTERNS
         \<and> m \<in> set (globalMatches (source (regex p)) c)
         \<and> (FlakyPattern.severity p = High \<or> \<not> hasMitigation (lookback c (index m)))"
proof -
  from assms obtain f' where f': "f' \<in> set files"
    "(f, c, p, m) \<in> set (case readFileSync fs f' of
             None \<Rightarrow> []
           | Some c \<Rightarrow> concat (map (\<lambda>p. map (\<lambda>m. (f', c, p, m)) (acceptedMatches p c))
                              FLAKY_PATTERNS))"
    unfolding firings_def by auto
  then obtain c' where c': "readFileSync fs f' = Some c'"
    by (cases "readFileSync fs f'") auto
  with f'(2) have "f = f'" "c = c'" "p \<in> set FLAKY_PATTERNS" "m \<in> set (acceptedMatches p c)"
    by auto
  with f'(1) c' show ?thesis by (auto simp: acceptedMatches_def)
qed

lemma example_firings:
  "firings exampleFs [[js ''a.test.ts'']]
     = [([js ''a.test.ts''], exampleContent, FLAKY_PATTERNS ! 0,
         \<lparr>index = 20, matched = js ''ttlSeconds=1''\<rparr>)]"
proof -
  have "concat (map (\<lambda>p. map (\<lambda>m. ([js ''a.test.ts''], exampleContent, p, m))
                          (filter (\<lambda>m. FlakyPattern.severity p = High
                                       \<or> \<not> isLikelyMocked exampleContent (index m))
                            (globalMatches (source (regex p)) exampleContent))) FLAKY_PATTERNS)
          = [([js ''a.test.ts''], exampleContent, FLAKY_PATTERNS ! 0,
              \<lparr>index = 20, matched = js ''ttlSeconds=1''\<rparr>)]"
    by code_simp
  then show ?thesis
    by (simp add: firings_def example_read acceptedMatches_def isLikelyMocked_iff)
qed

subsection \<open>The text of a value parses back to the value\<close>

lemma hexValue_low: "d < 10 \<Longrightarrow> hexValue (48 + d) = Some d"
  unfolding hexValue_def by simp

lemma hexValue_high: "\<not> d < 10 \<Longrightarrow> d < 16 \<Longrightarrow> hexValue (87 + d) = Some d"
  unfolding hexValue_def by simp

lemma hexValue_hexDigit: "d < 16 \<Longrightarrow> hexValue (hexDigit d) = Some d"
proof (cases "d < 10")
  case True
  then have "hexDigit d = 48 + d" by (simp add: hexDigit_def)
  with hexValue_low [OF True] show ?thesis by simp
next
  case False
  assume d: "d < 16"
  from False have "hexDigit d = 87 + d" by (simp add: hexDigit_def)
  with hexValue_high [OF False d] show ?thesis by simp
qed

lemma hex_compose:
  assumes "c < 65536"
  shows "4096 * (c div 4096 mod 16) + 256 * (c div 256 mod 16) + 16 * (c div 16 mod 16)
           + c mod 16 = (c::nat)"
proof -
  have a: "c mod 256 = 16 * (c div 16 mod 16) + c mod 16"
    using mod_mult2_eq [of c 16 16] by simp
  have b: "c mod 4096 = 256 * (c div 256 mod 16) + c mod 256"
    using mod_mult2_eq [of c 256 16] by simp
  have d: "c mod 65536 = 4096 * (c div 4096 mod 16) + c mod 4096"
    using mod_mult2_eq [of c 4096 16] by simp
  have "c mod 65536 = c" using assms by simp
  with a b d show ?thesis by simp
qed

lemma parseChars_unicodeEscape:
  assumes "c < 65536"
  shows "parseChars (unicodeEscape c @ t) = consTo c (parseChars t)"
proof -
  have h: "hexValue (hexDigit (c div 4096 mod 16)) = Some (c div 4096 mod 16)"
    "hexValue (hexDigit (c div 256 mod 16)) = Some (c div 256 mod 16)"
    "hexValue (hexDigit (c div 16 mod 16)) = Some (c div 16 mod 16)"
    "hexValue (hexDigit (c mod 16)) = Some (c mod 16)"
    by (simp_all add: hexValue_hexDigit)
  show ?thesis
    by (simp add: unicodeEscape_def h hex_compose [OF assms])
qed

lemma parseChars_plain:
  "32 \<le> c \<Longrightarrow> c \<noteq> 34 \<Longrightarrow> c \<noteq> 92 \<Longrightarrow> parseChars (c # t) = consTo c (parseChars t)"
  by simp

lemma parseChars_quoteUnit: "parseChars (quoteUnit c @ t) = consTo c (parseChars t)"
proof -
  consider "c = 8" | "c = 9" | "c = 10" | "c = 12" | "c = 13" | "c = 34" | "c = 92"
    | "c \<notin> {8, 9, 10, 12, 13, 34, 92}" "c < 32 \<or> isLeadingSurrogate c \<or> isTrailingSurrogate c"
    | "c \<notin> {8, 9, 10, 12, 13, 34, 92}" "\<not> (c < 32 \<or> isLeadingSurrogate c \<or> isTrailingSurrogate c)"
    by blast
  then show ?thesis
  proof cases
    case 8
    then have "c < 65536" by (auto simp: isLeadingSurrogate_def isTrailingSurrogate_def)
    from parseChars_unicodeEscape [OF this] 8 show ?thesis by (simp add: quoteUnit_def)
  next
    case 9
    then have "quoteUnit c = [c]" by (simp add: quoteUnit_def)
    moreover have "32 \<le> c" "c \<noteq> 34" "c \<noteq> 92" using 9 by auto
    ultimately show ?thesis using parseChars_plain by simp
  qed (simp_all add: quoteUnit_def unescape_def)
qed

lemma surrogate_plain:
  "isLeadingSurrogate c \<or> isTrailingSurrogate c \<Longrightarrow> 32 \<le> c \<and> c \<noteq> 34 \<and> c \<noteq> 92"
  by (auto simp: isLeadingSurrogate_def isTrailingSurrogate_def)

lemma parseChars_quoteBody: "parseChars (quoteBody s @ 34 # rest) = Some (s, rest)"
proof (induction s rule: quoteBody.induct)
  case 1
  then show ?case by simp
next
  case (2 c)
  have "parseChars (quoteUnit c @ 34 # rest) = consTo c (parseChars (34 # rest))"
    by (rule parseChars_quoteUnit)
  then show ?case by (simp add: consTo_def)
next
  case (3 c d cs)
  show ?case
  proof (cases "isLeadingSurrogate c \<and> isTrailingSurrogate d")
    case True
    then have pc: "32 \<le> c" "c \<noteq> 34" "c \<noteq> 92" and pd: "32 \<le> d" "d \<noteq> 34" "d \<noteq> 92"
      using surrogate_plain by blast+
    let ?t = "quoteBody cs @ 34 # rest"
    have q: "quoteBody (c # d # cs) @ 34 # rest = c # d # ?t" using True by simp
    have "parseChars (c # d # ?t) = consTo c (parseChars (d # ?t))"
      by (rule parseChars_plain [OF pc])
    also have "parseChars (d # ?t) = consTo d (parseChars ?t)"
      by (rule parseChars_plain [OF pd])
    also have "parseChars ?t = Some (cs, rest)" using True "3.IH"(1) by simp
    finally show ?thesis unfolding q by (simp add: consTo_def)
  next
    case False
    let ?t = "quoteBody (d # cs) @ 34 # rest"
    have q: "quoteBody (c # d # cs) @ 34 # rest = quoteUnit c @ ?t"
      by (simp only: quoteBody.simps False if_False append_assoc)
    have "parseChars (quoteUnit c @ ?t) = consTo c (parseChars ?t)"
      by (rule parseChars_quoteUnit)
    also have "parseChars ?t = Some (d # cs, rest)" using False "3.IH"(2) by simp
    finally show ?thesis unfolding q by (simp add: consTo_def)
  qed
qed

lemma digits10_digits: "list_all is_digit (digits10 n)"
proof (induction n rule: digits10.induct)
  case (1 n)
  show ?case
  proof (cases "n < 10")
    case True
    then show ?thesis by (subst digits10.simps) (simp add: is_digit_def)
  next
    case False
    have "n mod 10 < 10" by simp
    then have "is_digit (48 + n mod 10)" unfolding is_digit_def by linarith
    with False "1.IH" show ?thesis by (subst digits10.simps) simp
  qed
qed

lemma digits10_nonempty: "digits10 n \<noteq> []"
  by (subst digits10.simps) simp

lemma digits10_value: "foldl (\<lambda>n d. 10 * n + (d - 48)) 0 (digits10 n) = n"
proof (induction n rule: digits10.induct)
  case (1 n)
  show ?case
  proof (cases "n < 10")
    case True
    then show ?thesis by (subst digits10.simps) simp
  next
    case False
    with "1.IH" show ?thesis by (subst digits10.simps) simp
  qed
qed

lemma digits10_leading: "0 < n \<Longrightarrow> hd (digits10 n) \<noteq> 48"
proof (induction n rule: digits10.induct)
  case (1 n)
  show ?case
  proof (cases "n < 10")
    case True
    with "1.prems" show ?thesis by (subst digits10.simps) simp
  next
    case False
    then have "0 < n div 10" by simp
    from "1.IH" [OF False this] False show ?thesis
      by (subst digits10.simps) (simp add: digits10_nonempty)
  qed
qed

lemma digits10_length: "1 < length (digits10 n) \<Longrightarrow> 0 < n"
  by (subst (asm) digits10.simps) (auto split: if_splits)

lemma parseNumber_digits10:
  assumes "numberEnd rest"
  shows "parseNumber (digits10 n @ rest) = Some (n, rest)"
proof -
  have nd: "rest = [] \<or> \<not> is_digit (hd rest)"
    using assms by (auto simp: numberEnd_def is_digit_def)
  have all: "\<forall>x \<in> set (digits10 n). is_digit x"
    using digits10_digits [of n] by (simp add: list_all_iff)
  have tw: "takeWhile is_digit (digits10 n @ rest) = digits10 n"
    using nd all by (cases rest) (simp_all add: takeWhile_append2 takeWhile_eq_all_conv)
  have dw: "dropWhile is_digit (digits10 n @ rest) = rest"
    using nd all by (cases rest) (simp_all add: dropWhile_append2 dropWhile_eq_Nil_conv)
  have lead: "\<not> (1 < length (digits10 n) \<and> hd (digits10 n) = 48)"
    using digits10_length digits10_leading by blast
  have fr: "\<not> (rest \<noteq> [] \<and> (hd rest = 46 \<or> hd rest = 101 \<or> hd rest = 69))"
    using assms by (auto simp: numberEnd_def)
  show ?thesis
    unfolding parseNumber_def Let_def tw dw
    using lead fr digits10_nonempty [of n] by (simp add: digits10_value)
qed

lemma skipWs_pre: "list_all isJsonWs pre \<Longrightarrow> startsValue s \<Longrightarrow> skipWs (pre @ s) = s"
  by (induction pre) (auto simp: startsValue_def)

lemma skipWs_char: "list_all isJsonWs pre \<Longrightarrow> \<not> isJsonWs x \<Longrightarrow> skipWs (pre @ x # xs) = x # xs"
  by (induction pre) auto

lemma ws_indent: "list_all isJsonWs (10 # replicate k 32)"
  by (simp add: isJsonWs_def list_all_iff)

lemma startsValue_digits: "startsValue (digits10 n @ t)"
proof -
  obtain x xs where x: "digits10 n = x # xs" using digits10_nonempty [of n] by (cases "digits10 n") auto
  with digits10_digits [of n] have "is_digit x" by simp
  then have "\<not> isJsonWs x \<and> x \<noteq> 93 \<and> x \<noteq> 125" by (auto simp: is_digit_def isJsonWs_def)
  with x show ?thesis unfolding startsValue_def by simp
qed

lemma startsValue_serialize: "startsValue (serialize ind v @ t)"
proof (cases v)
  case (JNumber n)
  then show ?thesis by (simp add: startsValue_digits)
next
  case (JString s)
  then show ?thesis by (simp add: startsValue_def quoteJSONString_def isJsonWs_def)
next
  case (JArray vs)
  then show ?thesis by (simp add: startsValue_def isJsonWs_def js_def)
next
  case (JObject ps)
  then show ?thesis by (simp add: startsValue_def isJsonWs_def js_def)
qed

lemma startsValue_member: "startsValue (member ind p @ t)"
  by (simp add: member_def startsValue_def quoteJSONString_def isJsonWs_def)

lemma startsValue_joinWith:
  assumes "xs \<noteq> []" "\<And>x t. startsValue (f x @ t)"
  shows "startsValue (joinWith sep (map f xs) @ t)"
proof (cases xs)
  case Nil
  with assms(1) show ?thesis by simp
next
  case (Cons x ys)
  then show ?thesis using assms(2) by (cases ys) simp_all
qed

lemma startsValue_not_close:
  "startsValue s \<Longrightarrow> \<exists>x xs. s = x # xs \<and> skipWs s = x # xs \<and> x \<noteq> 93 \<and> x \<noteq> 125"
  by (auto simp: startsValue_def)

lemma joinWith_Cons2: "joinWith sep (x # y # ys) = x @ sep @ joinWith sep (y # ys)"
  by simp

lemma numberEnd_comma: "numberEnd (44 # t)" and numberEnd_newline: "numberEnd (10 # t)"
  and numberEnd_Nil: "numberEnd []"
  by (simp_all add: numberEnd_def)

lemma parsesBackD:
  "parsesBack v \<Longrightarrow> weight v \<le> n \<Longrightarrow> list_all isJsonWs pre \<Longrightarrow> numberEnd rest \<Longrightarrow>
   parseValue n (pre @ serialize ind v @ rest) = Some (v, rest)"
  unfolding parsesBack_def by blast

lemma parseElements_back:
  "vs \<noteq> [] \<Longrightarrow> (\<forall>v \<in> set vs. parsesBack v) \<Longrightarrow>
   sum_list (map (\<lambda>v. Suc (weight v)) vs) \<le> n \<Longrightarrow> list_all isJsonWs pre \<Longrightarrow>
   parseElements n
     (pre @ joinWith ([44, 10] @ replicate k 32) (map (serialize k) vs)
        @ 10 # replicate ind 32 @ 93 # rest) = Some (vs, rest)"
proof (induction vs arbitrary: n pre)
  case Nil
  then show ?case by simp
next
  case (Cons v vs)
  from Cons.prems(3) obtain n' where n': "n = Suc n'" by (cases n) auto
  from Cons.prems(2) have pv: "parsesBack v" by simp
  have wv: "weight v \<le> n'" using Cons.prems(3) n' by simp
  show ?case
  proof (cases vs)
    case Nil
    let ?rest = "10 # replicate ind 32 @ 93 # rest"
    have "parseValue n' (pre @ serialize k v @ ?rest) = Some (v, ?rest)"
      by (rule parsesBackD [OF pv wv Cons.prems(4) numberEnd_newline])
    moreover have "skipWs ?rest = 93 # rest"
      using skipWs_char [OF ws_indent, of 93 ind rest] by (simp add: isJsonWs_def)
    ultimately show ?thesis using Nil n' by simp
  next
    case (Cons v' vs')
    let ?sep = "[44, 10] @ replicate k 32"
    let ?tail = "joinWith ?sep (map (serialize k) vs) @ 10 # replicate ind 32 @ 93 # rest"
    let ?rest = "44 # (10 # replicate k 32) @ ?tail"
    have j: "pre @ joinWith ?sep (map (serialize k) (v # vs)) @ 10 # replicate ind 32 @ 93 # rest
               = pre @ serialize k v @ ?rest"
      using Cons by simp
    have 1: "parseValue n' (pre @ serialize k v @ ?rest) = Some (v, ?rest)"
      by (rule parsesBackD [OF pv wv Cons.prems(4) numberEnd_comma])
    have 2: "skipWs ?rest = ?rest" by (simp add: isJsonWs_def)
    have ne: "vs \<noteq> []" using Cons by simp
    have sm: "sum_list (map (\<lambda>v. Suc (weight v)) vs) \<le> n'" using Cons.prems(3) n' by simp
    have 3: "parseElements n' ((10 # replicate k 32) @ ?tail) = Some (vs, rest)"
      using Cons.IH [OF ne _ sm ws_indent] Cons.prems(2) by simp
    show ?thesis unfolding j n' using 1 2 3 by simp
  qed
qed

lemma parseMembers_back:
  "ps \<noteq> [] \<Longrightarrow> (\<forall>p \<in> set ps. parsesBack (snd p)) \<Longrightarrow>
   sum_list (map (\<lambda>p. Suc (weight (snd p))) ps) \<le> n \<Longrightarrow> list_all isJsonWs pre \<Longrightarrow>
   parseMembers n
     (pre @ joinWith ([44, 10] @ replicate k 32) (map (member k) ps)
        @ 10 # replicate ind 32 @ 125 # rest) = Some (ps, rest)"
proof (induction ps arbitrary: n pre)
  case Nil
  then show ?case by simp
next
  case (Cons p ps)
  obtain key v where p: "p = (key, v)" by (cases p)
  from Cons.prems(3) obtain n' where n': "n = Suc n'" by (cases n) auto
  from Cons.prems(2) have pv: "parsesBack v" using p by simp
  have wv: "weight v \<le> n'" using Cons.prems(3) n' p by simp
  have ws1: "list_all isJsonWs [32]" by (simp add: isJsonWs_def)
  have key: "\<And>t. skipWs (pre @ member k p @ t)
                 = 34 # quoteBody key @ 34 # 58 # [32] @ serialize k v @ t"
    using skipWs_char [OF Cons.prems(4), of 34] by (simp add: member_def p quoteJSONString_def isJsonWs_def)
  have chars: "\<And>t. parseChars (quoteBody key @ 34 # 58 # [32] @ serialize k v @ t)
                 = Some (key, 58 # [32] @ serialize k v @ t)"
    by (rule parseChars_quoteBody)
  have colon: "\<And>t. skipWs (58 # [32] @ serialize k v @ t) = 58 # [32] @ serialize k v @ t"
    by (simp add: isJsonWs_def)
  show ?case
  proof (cases ps)
    case Nil
    let ?rest = "10 # replicate ind 32 @ 125 # rest"
    have 1: "parseValue n' ([32] @ serialize k v @ ?rest) = Some (v, ?rest)"
      by (rule parsesBackD [OF pv wv ws1 numberEnd_newline])
    have 2: "skipWs ?rest = 125 # rest"
      using skipWs_char [OF ws_indent, of 125 ind rest] by (simp add: isJsonWs_def)
    have j: "pre @ joinWith ([44, 10] @ replicate k 32) (map (member k) (p # ps))
               @ 10 # replicate ind 32 @ 125 # rest = pre @ member k p @ ?rest"
      using Nil by simp
    show ?thesis
      unfolding j n' parseMembers.simps key [of ?rest]
      using chars [of ?rest] colon [of ?rest] 1 2 p Nil by simp
  next
    case (Cons p' ps')
    let ?sep = "[44, 10] @ replicate k 32"
    let ?tail = "joinWith ?sep (map (member k) ps) @ 10 # replicate ind 32 @ 125 # rest"
    let ?rest = "44 # (10 # replicate k 32) @ ?tail"
    have j: "pre @ joinWith ?sep (map (member k) (p # ps)) @ 10 # replicate ind 32 @ 125 # rest
               = pre @ member k p @ ?rest"
      using Cons by simp
    have 1: "parseValue n' ([32] @ serialize k v @ ?rest) = Some (v, ?rest)"
      by (rule parsesBackD [OF pv wv ws1 numberEnd_comma])
    have 2: "skipWs ?rest = ?rest" by (simp add: isJsonWs_def)
    have ne: "ps \<noteq> []" using Cons by simp
    have sm: "sum_list (map (\<lambda>p. Suc (weight (snd p))) ps) \<le> n'"
      using Cons.prems(3) n' by simp
    have 3: "parseMembers n' ((10 # replicate k 32) @ ?tail) = Some (ps, rest)"
      using Cons.IH [OF ne _ sm ws_indent] Cons.prems(2) by simp
    show ?thesis
      unfolding j n' parseMembers.simps key [of ?rest]
      using chars [of ?rest] colon [of ?rest] 1 2 3 p by simp
  qed
qed

lemma serialize_JObject_member:
  "serialize ind (JObject ps) =
     (if ps = [] then js ''{}''
      else [123, 10] @ replicate (ind + 2) 32
           @ joinWith ([44, 10] @ replicate (ind + 2) 32) (map (member (ind + 2)) ps)
           @ [10] @ replicate ind 32 @ [125])"
proof -
  have "(\<lambda>(k, v). quoteJSONString k @ [58, 32] @ serialize (ind + 2) v) = member (ind + 2)"
    by (rule ext) (simp add: member_def split_beta)
  then show ?thesis by (simp only: serialize.simps)
qed

lemma parsesBack_all: "parsesBack v"
proof (induction v)
  case (JNumber k)
  show ?case unfolding parsesBack_def
  proof (intro allI impI)
    fix n ind pre rest
    assume a: "weight (JNumber k) \<le> n" "list_all isJsonWs pre" "numberEnd rest"
    from a(1) obtain n' where n': "n = Suc n'" by (cases n) auto
    obtain x xs where x: "digits10 k @ rest = x # xs" "\<not> isJsonWs x" "is_digit x"
    proof -
      obtain y ys where y: "digits10 k = y # ys"
        using digits10_nonempty [of k] by (cases "digits10 k") auto
      with digits10_digits [of k] have "is_digit y" by simp
      then have "\<not> isJsonWs y" by (auto simp: is_digit_def isJsonWs_def)
      with y \<open>is_digit y\<close> show ?thesis using that [of y "ys @ rest"] by simp
    qed
    have d: "\<not> (x = 34 \<or> x = 91 \<or> x = 123)" using x(3) by (auto simp: is_digit_def)
    have s: "skipWs (pre @ x # xs) = x # xs" by (rule skipWs_char [OF a(2) x(2)])
    have p: "parseNumber (x # xs) = Some (k, rest)"
      using parseNumber_digits10 [OF a(3), of k] x(1) by simp
    show "parseValue n (pre @ serialize ind (JNumber k) @ rest) = Some (JNumber k, rest)"
      unfolding n' using s p d x(1,3) by simp
  qed
next
  case (JString t)
  show ?case unfolding parsesBack_def
  proof (intro allI impI)
    fix n ind pre rest
    assume a: "weight (JString t) \<le> n" "list_all isJsonWs pre" "numberEnd rest"
    from a(1) obtain n' where n': "n = Suc n'" by (cases n) auto
    have s: "skipWs (pre @ 34 # quoteBody t @ 34 # rest) = 34 # quoteBody t @ 34 # rest"
      by (rule skipWs_char [OF a(2)]) (simp add: isJsonWs_def)
    show "parseValue n (pre @ serialize ind (JString t) @ rest) = Some (JString t, rest)"
      unfolding n' using s parseChars_quoteBody [of t rest] by (simp add: quoteJSONString_def)
  qed
next
  case (JArray vs)
  show ?case unfolding parsesBack_def
  proof (intro allI impI)
    fix n ind pre rest
    assume a: "weight (JArray vs) \<le> n" "list_all isJsonWs pre" "numberEnd rest"
    from a(1) obtain n' where n': "n = Suc n'" by (cases n) auto
    show "parseValue n (pre @ serialize ind (JArray vs) @ rest) = Some (JArray vs, rest)"
    proof (cases "vs = []")
      case True
      have "skipWs (pre @ 91 # 93 # rest) = 91 # 93 # rest"
        by (rule skipWs_char [OF a(2)]) (simp add: isJsonWs_def)
      then show ?thesis unfolding n' using True by (simp add: js_def isJsonWs_def)
    next
      case False
      let ?k = "ind + 2"
      let ?body = "joinWith ([44, 10] @ replicate ?k 32) (map (serialize ?k) vs)
                     @ 10 # replicate ind 32 @ 93 # rest"
      let ?cs = "(10 # replicate ?k 32) @ ?body"
      have ser: "pre @ serialize ind (JArray vs) @ rest = pre @ 91 # ?cs" using False by simp
      have s1: "skipWs (pre @ 91 # ?cs) = 91 # ?cs"
        by (rule skipWs_char [OF a(2)]) (simp add: isJsonWs_def)
      have sv: "startsValue ?body"
        using startsValue_joinWith [OF False, of "serialize ?k"] startsValue_serialize by blast
      from startsValue_not_close [OF sv] obtain x xs where
        x: "?body = x # xs" "x \<noteq> 93" by blast
      have "skipWs ?cs = ?body" by (rule skipWs_pre [OF ws_indent sv])
      then have s2: "skipWs ?cs = x # xs" by (simp only: x(1))
      have el: "parseElements n' ?cs = Some (vs, rest)"
      proof (rule parseElements_back [OF False _ _ ws_indent])
        show "\<forall>v \<in> set vs. parsesBack v" using JArray by blast
        show "sum_list (map (\<lambda>v. Suc (weight v)) vs) \<le> n'" using a(1) n' by simp
      qed
      show ?thesis unfolding ser n' parseValue.simps s1 using s2 x(2) el
        by (simp add: isJsonWs_def)
    qed
  qed
next
  case (JObject ps)
  show ?case unfolding parsesBack_def
  proof (intro allI impI)
    fix n ind pre rest
    assume a: "weight (JObject ps) \<le> n" "list_all isJsonWs pre" "numberEnd rest"
    from a(1) obtain n' where n': "n = Suc n'" by (cases n) auto
    show "parseValue n (pre @ serialize ind (JObject ps) @ rest) = Some (JObject ps, rest)"
    proof (cases "ps = []")
      case True
      have "skipWs (pre @ 123 # 125 # rest) = 123 # 125 # rest"
        by (rule skipWs_char [OF a(2)]) (simp add: isJsonWs_def)
      then show ?thesis unfolding n' using True by (simp add: js_def isJsonWs_def)
    next
      case False
      let ?k = "ind + 2"
      let ?body = "joinWith ([44, 10] @ replicate ?k 32) (map (member ?k) ps)
                     @ 10 # replicate ind 32 @ 125 # rest"
      let ?cs = "(10 # replicate ?k 32) @ ?body"
      have ser: "pre @ serialize ind (JObject ps) @ rest = pre @ 123 # ?cs"
        unfolding serialize_JObject_member using False by simp
      have s1: "skipWs (pre @ 123 # ?cs) = 123 # ?cs"
        by (rule skipWs_char [OF a(2)]) (simp add: isJsonWs_def)
      have sv: "startsValue ?body"
        using startsValue_joinWith [OF False, of "member ?k"] startsValue_member by blast
      from startsValue_not_close [OF sv] obtain x xs where
        x: "?body = x # xs" "x \<noteq> 125" by blast
      have "skipWs ?cs = ?body" by (rule skipWs_pre [OF ws_indent sv])
      then have s2: "skipWs ?cs = x # xs" by (simp only: x(1))
      have el: "parseMembers n' ?cs = Some (ps, rest)"
      proof (rule parseMembers_back [OF False _ _ ws_indent])
        show "\<forall>p \<in> set ps. parsesBack (snd p)"
        proof
          fix p assume "p \<in> set ps"
          moreover have "snd p \<in> Basic_BNFs.snds p" by (cases p) simp
          ultimately show "parsesBack (snd p)" using JObject by blast
        qed
        show "sum_list (map (\<lambda>p. Suc (weight (snd p))) ps) \<le> n'" using a(1) n' by simp
      qed
      show ?thesis unfolding ser n' parseValue.simps s1 using s2 x(2) el
        by (simp add: isJsonWs_def)
    qed
  qed
qed

lemma weight_joinWith:
  "(\<And>x. x \<in> set xs \<Longrightarrow> w x \<le> length (f x)) \<Longrightarrow> 1 \<le> length sep \<Longrightarrow>
   sum_list (map (\<lambda>x. Suc (w x)) xs) \<le> Suc (length (joinWith sep (map f xs)))"
proof (induction xs)
  case Nil
  then show ?case by simp
next
  case (Cons x xs)
  have wx: "w x \<le> length (f x)" using Cons.prems(1) by simp
  have IH: "sum_list (map (\<lambda>x. Suc (w x)) xs) \<le> Suc (length (joinWith sep (map f xs)))"
    using Cons.IH Cons.prems by simp
  show ?case
  proof (cases xs)
    case Nil
    then show ?thesis using wx by simp
  next
    case (Cons y ys)
    then have "length (joinWith sep (map f (x # xs)))
                 = length (f x) + length sep + length (joinWith sep (map f xs))" by simp
    with wx IH Cons.prems(2) show ?thesis by simp
  qed
qed

lemma weight_le_length: "weight v \<le> length (serialize ind v)"
proof (induction v arbitrary: ind)
  case (JNumber k)
  have "0 < length (digits10 k)" using digits10_nonempty [of k] by simp
  then have "Suc 0 \<le> length (digits10 k)" by (rule Suc_leI)
  then show ?case by simp
next
  case (JString t)
  then show ?case by (simp add: quoteJSONString_def)
next
  case (JArray vs)
  show ?case
  proof (cases "vs = []")
    case True
    then show ?thesis by (simp add: js_def)
  next
    case False
    have "sum_list (map (\<lambda>v. Suc (weight v)) vs)
            \<le> Suc (length (joinWith ([44, 10] @ replicate (ind + 2) 32)
                               (map (serialize (ind + 2)) vs)))"
      by (rule weight_joinWith) (use JArray in simp_all)
    then show ?thesis using False by simp
  qed
next
  case (JObject ps)
  show ?case
  proof (cases "ps = []")
    case True
    then show ?thesis by (simp add: js_def)
  next
    case False
    have "sum_list (map (\<lambda>p. Suc (weight (snd p))) ps)
            \<le> Suc (length (joinWith ([44, 10] @ replicate (ind + 2) 32)
                               (map (member (ind + 2)) ps)))"
    proof (rule weight_joinWith)
      fix p assume p: "p \<in> set ps"
      have "snd p \<in> Basic_BNFs.snds p" by (cases p) simp
      from JObject [OF p this, of "ind + 2"]
      show "weight (snd p) \<le> length (member (ind + 2) p)" by (simp add: member_def)
    qed simp
    then show ?thesis unfolding serialize_JObject_member using False by simp
  qed
qed

lemma JSON_roundtrip: "JSON_parse (serialize 0 v) = Some v"
proof -
  have "weight v \<le> Suc (length (serialize 0 v))"
    using weight_le_length [of v 0] by simp
  from parsesBackD [OF parsesBack_all this, of "[]" "[]" 0]
  have "parseValue (Suc (length (serialize 0 v))) (serialize 0 v) = Some (v, [])"
    by (simp add: numberEnd_def)
  then show ?thesis by (simp add: JSON_parse_def)
qed

lemma scanDirectory_total_is_length:
  "scanDirectory fs dir w = Some (Inr r, w') \<Longrightarrow> totalDetections r = length (detections r)"
  by (auto simp: scanDirectory_def split: sum.splits option.splits prod.splits)

lemma severityString_inj: "severityString a = severityString b \<Longrightarrow> a = b"
  by (cases a; cases b) (simp_all add: severityString_def js_def)

lemma example_json_text:
  "formatAsJson emptyResult =
     js ''{\<newline>  '' @ [34] @ js ''scannedFiles'' @ [34] @ js '': 0,\<newline>  '' @ [34]
       @ js ''totalDetections'' @ [34] @ js '': 0,\<newline>  '' @ [34] @ js ''summary'' @ [34]
       @ js '': {\<newline>    '' @ [34] @ js ''high'' @ [34] @ js '': 0,\<newline>    '' @ [34]
       @ js ''medium'' @ [34] @ js '': 0,\<newline>    '' @ [34] @ js ''low'' @ [34]
       @ js '': 0\<newline>  },\<newline>  '' @ [34] @ js ''detections'' @ [34] @ js '': []\<newline>}''"
  by code_simp

section \<open>The claims\<close>

text \<open>
  Claim C10. For every text, \<open>scanFile\<close> returns: whatever \<open>lastIndex\<close> values the 13
  regular expression objects of the catalog hold and whether or not the file can be read,
  the result is a value. The reason is that every match that \<open>exec\<close> reports for a catalog
  pattern is a non-empty text, so that each call moves \<open>lastIndex\<close> strictly forward and
  never beyond the end of the text.
\<close>

theorem scanFile_terminates:
  assumes "catalogState (patterns w)"
  shows "(\<exists>r. scanFile fs filePath w = Some r)
         \<and> length FLAKY_PATTERNS = 13
         \<and> (\<forall>p \<in> set (patterns w). \<forall>s m re'. exec (regex p) s = (Some m, re') \<longrightarrow>
               matched m \<noteq> [] \<and> lastIndex (regex p) < lastIndex re' \<and> lastIndex re' \<le> length s)"
proof -
  have "\<exists>r. scanFile fs filePath w = Some r" using scanFile_total [OF assms] by blast
  moreover have "length FLAKY_PATTERNS = 13" by (simp add: FLAKY_PATTERNS_def)
  moreover have "\<forall>p \<in> set (patterns w). \<forall>s m re'. exec (regex p) s = (Some m, re') \<longrightarrow>
      matched m \<noteq> [] \<and> lastIndex (regex p) < lastIndex re' \<and> lastIndex re' \<le> length s"
    using exec_progress catalogState_minlen [OF assms] by blast
  ultimately show ?thesis by blast
qed

theorem scanFile_terminates_witness:
  "catalogState (patterns usedWorld)
   \<and> (\<exists>r. scanFile exampleFs [js ''a.test.ts''] usedWorld = Some r)
   \<and> (\<exists>r. scanFile exampleFs [js ''missing.test.ts''] usedWorld = Some r)"
  using scanFile_terminates [OF catalogState_usedWorld, of exampleFs "[js ''a.test.ts'']"]
    scanFile_terminates [OF catalogState_usedWorld, of exampleFs "[js ''missing.test.ts'']"]
    catalogState_usedWorld
  by blast

text \<open>
  Claim C1. For a readable file, the detections of \<open>scanFile\<close> are, rule by rule in catalog
  order and match by match in the order of the global search, exactly one detection for
  each match whose rule has severity high or whose lookback window (the at most 2000 code
  units immediately before the start of the match) contains no mitigation signature, and
  none for any other match.
\<close>

theorem scanner_mitigation:
  assumes "catalogState (patterns w)" and "readFileSync fs filePath = Some content"
  shows "\<exists>w'. scanFile fs filePath w =
           Some (concat (map (\<lambda>p. map (makeDetection filePath content (split_nl content) p)
                   (filter (\<lambda>m. FlakyPattern.severity p = High
                                 \<or> \<not> hasMitigation (lookback content (index m)))
                      (globalMatches (source (regex p)) content))) FLAKY_PATTERNS), w')"
  using scanFile_eq [OF assms] by (simp add: detectionsOf_def acceptedMatches_def)

theorem scanner_mitigation_witness:
  "catalogState (patterns exampleWorld)
   \<and> readFileSync exampleFs [js ''a.test.ts''] = Some exampleContent
   \<and> (\<exists>w'. scanFile exampleFs [js ''a.test.ts''] exampleWorld = Some ([exampleDetection], w'))"
  using scanner_mitigation [OF catalogState_exampleWorld example_read]
    catalogState_exampleWorld example_read example_scan
  by (simp add: detectionsOf_code [symmetric] detectionsOf_def acceptedMatches_def)

text \<open>
  Claim C9. What \<open>scanFile\<close> detects does not depend on what was scanned before: for the
  catalog in any two states (any \<open>lastIndex\<close> values left behind, any output so far), two
  runs on files with the same content both return, with detection lists that agree in
  every field except the file path handed to \<open>scanFile\<close>, and that are equal when the
  path is the same. Each run leaves the catalog in a state of the same kind, so the
  property holds after any number of scans.
\<close>

theorem scanFile_history_independent:
  assumes "catalogState (patterns w1)" and "catalogState (patterns w2)"
    and "readFileSync fs1 path1 = readFileSync fs2 path2"
  shows "\<exists>ds1 ds2 w1' w2'.
           scanFile fs1 path1 w1 = Some (ds1, w1') \<and> scanFile fs2 path2 w2 = Some (ds2, w2')
           \<and> map (\<lambda>d. d\<lparr>file_path := []\<rparr>) ds1 = map (\<lambda>d. d\<lparr>file_path := []\<rparr>) ds2
           \<and> (path1 = path2 \<longrightarrow> ds1 = ds2)
           \<and> catalogState (patterns w1') \<and> catalogState (patterns w2')"
proof -
  let ?D = "\<lambda>fs fp. case readFileSync fs fp of None \<Rightarrow> [] | Some c \<Rightarrow> detectionsOf fp c"
  from scanFile_cases [OF assms(1), of fs1 path1] obtain w1' where
    1: "scanFile fs1 path1 w1 = Some (?D fs1 path1, w1')" "catalogState (patterns w1')" by blast
  from scanFile_cases [OF assms(2), of fs2 path2] obtain w2' where
    2: "scanFile fs2 path2 w2 = Some (?D fs2 path2, w2')" "catalogState (patterns w2')" by blast
  have e: "map (\<lambda>d. d\<lparr>file_path := []\<rparr>) (?D fs1 path1) = map (\<lambda>d. d\<lparr>file_path := []\<rparr>) (?D fs2 path2)"
    using assms(3) by (cases "readFileSync fs2 path2") (simp_all add: detectionsOf_erase_path)
  have s: "path1 = path2 \<longrightarrow> ?D fs1 path1 = ?D fs2 path2"
  proof
    assume "path1 = path2"
    with assms(3) have "readFileSync fs1 path2 = readFileSync fs2 path2" by simp
    with \<open>path1 = path2\<close> show "?D fs1 path1 = ?D fs2 path2"
      by (simp split: option.split)
  qed
  show ?thesis using 1 2 e s by blast
qed

theorem scanFile_history_independent_witness:
  "catalogState (patterns exampleWorld) \<and> catalogState (patterns usedWorld)
   \<and> patterns exampleWorld \<noteq> patterns usedWorld
   \<and> (\<exists>w1' w2'. scanFile exampleFs [js ''a.test.ts''] exampleWorld = Some ([exampleDetection], w1')
          \<and> scanFile exampleFs [js ''a.test.ts''] usedWorld = Some ([exampleDetection], w2'))"
proof -
  have ne: "patterns exampleWorld \<noteq> patterns usedWorld"
    by (simp add: exampleWorld_def usedWorld_def FLAKY_PATTERNS_def global_def)
  from scanFile_history_independent [OF catalogState_exampleWorld catalogState_usedWorld refl,
      of exampleFs "[js ''a.test.ts'']"]
  obtain ds1 ds2 w1' w2' where
    r: "scanFile exampleFs [js ''a.test.ts''] exampleWorld = Some (ds1, w1')"
       "scanFile exampleFs [js ''a.test.ts''] usedWorld = Some (ds2, w2')" "ds1 = ds2"
    by blast
  have "scanFile exampleFs [js ''a.test.ts''] exampleWorld
          = Some ([exampleDetection], exampleWorld\<lparr>patterns := FLAKY_PATTERNS\<rparr>)"
    using scanFile_eq [OF catalogState_exampleWorld example_read]
    by (simp add: detectionsOf_code example_scan)
  with r have "ds1 = [exampleDetection]" by simp
  with r ne catalogState_exampleWorld catalogState_usedWorld show ?thesis by blast
qed

text \<open>
  Claim C4. The detections of \<open>scanFile\<close> correspond one to one, in order, to the accepted
  matches, and the line number of each is one plus the number of line feeds in the content
  strictly before the start of its match. Equivalently: when the content is a list of
  lines joined by line feeds and the match starts in the \<open>N\<close>th of them (counted from 1),
  the line number is \<open>N\<close>.
\<close>

theorem detection_line_numbers:
  assumes "catalogState (patterns w)" and "readFileSync fs filePath = Some content"
  shows "\<exists>ds w'. scanFile fs filePath w = Some (ds, w')
           \<and> list_all2
                (\<lambda>d m. line d = Suc (newlinesBefore content (index m))
                   \<and> (\<forall>ls N k. content = join_nl ls \<and> (\<forall>l \<in> set ls. 10 \<notin> set l)
                         \<and> 1 \<le> N \<and> N \<le> length ls \<and> k \<le> length (ls ! (N - 1))
                         \<and> index m = lineOffset ls N + k \<longrightarrow> line d = N))
                ds (concat (map (\<lambda>p. acceptedMatches p content) FLAKY_PATTERNS))"
proof -
  let ?P = "\<lambda>d m. line d = Suc (newlinesBefore content (index m))
                   \<and> (\<forall>ls N k. content = join_nl ls \<and> (\<forall>l \<in> set ls. 10 \<notin> set l)
                         \<and> 1 \<le> N \<and> N \<le> length ls \<and> k \<le> length (ls ! (N - 1))
                         \<and> index m = lineOffset ls N + k \<longrightarrow> line d = N)"
  have P: "\<And>p m. ?P (makeDetection filePath content (split_nl content) p m) m"
    using newlines_on_line by (auto simp: line_makeDetection)
  have "list_all2 ?P (detectionsOf filePath content)
          (concat (map (\<lambda>p. acceptedMatches p content) FLAKY_PATTERNS))"
    unfolding detectionsOf_def by (rule list_all2_concat_map) (rule P)
  then show ?thesis using scanFile_eq [OF assms] by blast
qed

theorem detection_line_numbers_witness:
  "catalogState (patterns exampleWorld)
   \<and> readFileSync exampleFs [js ''a.test.ts''] = Some exampleContent
   \<and> (\<exists>d w'. scanFile exampleFs [js ''a.test.ts''] exampleWorld = Some ([d], w')
         \<and> line d = Suc (newlinesBefore exampleContent 20) \<and> line d = 3)"
proof -
  let ?P = "\<lambda>d m. line d = Suc (newlinesBefore exampleContent (index m))
                   \<and> (\<forall>ls N k. exampleContent = join_nl ls \<and> (\<forall>l \<in> set ls. 10 \<notin> set l)
                         \<and> 1 \<le> N \<and> N \<le> length ls \<and> k \<le> length (ls ! (N - 1))
                         \<and> index m = lineOffset ls N + k \<longrightarrow> line d = N)"
  from detection_line_numbers [OF catalogState_exampleWorld example_read]
  obtain ds w' where
    r: "scanFile exampleFs [js ''a.test.ts''] exampleWorld = Some (ds, w')"
    and full: "list_all2 ?P ds (concat (map (\<lambda>p. acceptedMatches p exampleContent) FLAKY_PATTERNS))"
    by blast
  have r2: "list_all2 (\<lambda>d m. line d = Suc (newlinesBefore exampleContent (index m)))
          ds (concat (map (\<lambda>p. acceptedMatches p exampleContent) FLAKY_PATTERNS))"
    by (rule list_all2_mono [OF full]) blast
  from r2 obtain d where d: "ds = [d]" "line d = Suc (newlinesBefore exampleContent 20)"
    unfolding example_accepted by (auto simp: list_all2_Cons2)
  have "newlinesBefore exampleContent 20 = 2"
    by (simp add: newlinesBefore_def exampleContent_def js_def)
  with r d catalogState_exampleWorld example_read show ?thesis by auto
qed

text \<open>
  Claim C6. Every path that \<open>findTestFiles\<close> returns for a root directory is the root
  followed by at least one component, and none of the directories between the root and the
  file bears a name of the ignore list (\<open>node_modules\<close>, \<open>dist\<close>, \<open>build\<close>, \<open>.git\<close>,
  \<open>coverage\<close>). The loop over the entries steps over a directory with such a name
  without looking at what it contains, whether or not it can be listed.
\<close>

theorem ignored_directories_pruned:
  assumes "findTestFiles (lookup fs dir) dir [] = Inr files" and "p \<in> set files"
  shows "(\<exists>rel. p = dir @ rel \<and> rel \<noteq> [] \<and> (\<forall>n \<in> set (butlast rel). n \<notin> set ignoreList))
         \<and> set ignoreList
              = {js ''node_modules'', js ''dist'', js ''build'', js ''.git'', js ''coverage''}
         \<and> (\<forall>nm x rest d fl. nm \<in> set ignoreList \<longrightarrow>
                forEntries ((nm, Dir x) # rest) d fl = forEntries rest d fl)"
proof -
  from find_paths(1) [OF assms(1)] assms(2)
  have "\<exists>rel. p = dir @ rel \<and> rel \<noteq> [] \<and> (\<forall>n \<in> set (butlast rel). n \<notin> set ignoreList)"
    by auto
  moreover have "set ignoreList
      = {js ''node_modules'', js ''dist'', js ''build'', js ''.git'', js ''coverage''}"
    by (simp add: ignoreList_def)
  moreover have "\<forall>nm x rest d fl. nm \<in> set ignoreList \<longrightarrow>
      forEntries ((nm, Dir x) # rest) d fl = forEntries rest d fl"
    by simp
  ultimately show ?thesis by blast
qed

theorem ignored_directories_pruned_witness:
  "findTestFiles (lookup exampleFs []) [] [] = Inr [[js ''a.test.ts'']]
   \<and> lookup exampleFs [js ''node_modules'', js ''b.test.ts''] = Some (File (Some (js ''Date.now()'')))
   \<and> isTestFileName (js ''b.test.ts'')
   \<and> (\<exists>rel. [js ''a.test.ts''] = [] @ rel \<and> rel \<noteq> []
          \<and> (\<forall>n \<in> set (butlast rel). n \<notin> set ignoreList))"
proof -
  have l: "lookup exampleFs [js ''node_modules'', js ''b.test.ts''] = Some (File (Some (js ''Date.now()'')))"
    by code_simp
  have t: "isTestFileName (js ''b.test.ts'')" by code_simp
  have m: "[js ''a.test.ts''] \<in> set [[js ''a.test.ts'']]" by simp
  from ignored_directories_pruned [OF example_discovery m] example_discovery l t
  show ?thesis by blast
qed

text \<open>
  Claim C7, as stated, fails: a root directory that exists and holds no test file, but has
  a sub-directory that cannot be listed, makes \<open>readdirSync\<close> throw, and
  \<open>scanDirectory\<close> ends with that error instead of a result.
\<close>

theorem testless_root_with_locked_directory_raises:
  "lookup lockedFs [] = Some lockedFs \<and> isDirectory lockedFs \<and> \<not> hasTestFile lockedFs
   \<and> scanDirectory lockedFs [] exampleWorld
         = Some (Inl (ReaddirFailed [js ''locked'']), exampleWorld)
   \<and> scanDirectory lockedFs [] exampleWorld \<noteq> Some (Inr emptyResult, exampleWorld)"
  using example_locked_testless scanDirectory_error [OF example_locked, of exampleWorld]
  by (simp add: lockedFs_def)

text \<open>
  Claim C7, amended. If the root directory does not exist, or it exists, it and every
  directory that the walk enters from it can be listed, and the walk comes upon no test
  file (an empty directory is the simplest case), then \<open>scanDirectory\<close> returns, without
  an error and without touching the world, the result with no scanned file, no detection,
  an empty detection list and empty groupings, and the Markdown report of that result
  contains the all-clear message.
\<close>

theorem missing_or_testless_root_all_clear:
  assumes "lookup fs dir = None
           \<or> (\<exists>root. lookup fs dir = Some root \<and> listable root \<and> \<not> hasTestFile root)"
  shows "scanDirectory fs dir w = Some (Inr emptyResult, w)
         \<and> scannedFiles emptyResult = 0 \<and> totalDetections emptyResult = 0
         \<and> detections emptyResult = [] \<and> byFile emptyResult = []
         \<and> bySeverity emptyResult = \<lparr>high = [], medium = [], low = []\<rparr>
         \<and> formatAsMarkdown emptyResult =
             js ''## Flaky Test Analysis\<newline>\<newline>Scanned **0** test files, found **0** potential flaky patterns.\<newline>\<newline>''
               @ allClear @ js ''\<newline>''
         \<and> sublist allClear (formatAsMarkdown emptyResult)"
proof -
  have f: "findTestFiles (lookup fs dir) dir [] = Inr []"
  proof (cases "lookup fs dir")
    case None
    then show ?thesis by simp
  next
    case (Some root)
    with assms have "listable root" "\<not> hasTestFile root" by auto
    from testless_walk(1) [OF this refl] Some show ?thesis by simp
  qed
  have s: "scanDirectory fs dir w = Some (Inr emptyResult, w)"
    using f by (rule scanDirectory_no_files)
  have z: "totalDetections emptyResult = 0" by (simp add: emptyResult_def)
  have m: "formatAsMarkdown emptyResult =
             js ''## Flaky Test Analysis\<newline>\<newline>Scanned **0** test files, found **0** potential flaky patterns.\<newline>\<newline>''
               @ allClear @ js ''\<newline>''"
    unfolding markdown_zero [OF z]
    by (simp add: emptyResult_def js_def digits10.simps [of 0])
  have "sublist allClear (formatAsMarkdown emptyResult)"
    unfolding m by (simp add: sublist_append)
  with s m show ?thesis by (simp add: emptyResult_def)
qed

theorem missing_or_testless_root_all_clear_witness:
  "lookup exampleFs [js ''nowhere''] = None
   \<and> scanDirectory exampleFs [js ''nowhere''] usedWorld = Some (Inr emptyResult, usedWorld)
   \<and> lookup testlessFs [] = Some testlessFs \<and> listable testlessFs \<and> \<not> hasTestFile testlessFs
   \<and> scanDirectory testlessFs [] usedWorld = Some (Inr emptyResult, usedWorld)
   \<and> lookup (Dir (Some [])) [] = Some (Dir (Some [])) \<and> listable (Dir (Some []))
   \<and> \<not> hasTestFile (Dir (Some []))
   \<and> scanDirectory (Dir (Some [])) [] usedWorld = Some (Inr emptyResult, usedWorld)
   \<and> sublist allClear (formatAsMarkdown emptyResult)"
proof -
  have n: "lookup exampleFs [js ''nowhere''] = None" by code_simp
  have t: "lookup testlessFs [] = Some testlessFs \<and> listable testlessFs \<and> \<not> hasTestFile testlessFs"
    using example_testless by simp
  have e: "lookup (Dir (Some [])) [] = Some (Dir (Some [])) \<and> listable (Dir (Some []))
           \<and> \<not> hasTestFile (Dir (Some []))" by simp
  have t': "lookup testlessFs [] = None
      \<or> (\<exists>root. lookup testlessFs [] = Some root \<and> listable root \<and> \<not> hasTestFile root)"
    using t by blast
  have e': "lookup (Dir (Some [])) [] = None
      \<or> (\<exists>root. lookup (Dir (Some [])) [] = Some root \<and> listable root \<and> \<not> hasTestFile root)"
    using e by blast
  from missing_or_testless_root_all_clear [OF disjI1 [OF n], of usedWorld]
    missing_or_testless_root_all_clear [OF t', of usedWorld]
    missing_or_testless_root_all_clear [OF e', of usedWorld] n t e
  show ?thesis by blast
qed

text \<open>
  Claim C2. For a result of \<open>scanDirectory\<close> (on a file system in which no directory lists
  a name twice): the three severity groups are the detections of that severity in the
  order of the flat list, their lengths add up to \<open>totalDetections\<close>, and every detection
  occurs in the groups together as often as in the flat list; the groups by file,
  concatenated in order, are the flat list, their keys are distinct, none is empty, and
  every detection is in the group of its own file. The flat list corresponds one to one,
  in order, to the rule firings of the scan (discovered file, catalog rule, accepted match
  of that rule's own regular expression in the file's content), and each detection carries
  the file of its firing, the name, severity, risk and fix of the rule that fired, the
  text of the match and the line on which the match starts. No two rules of the catalog
  have the same name.
\<close>

theorem scanResult_groupings:
  assumes "catalogState (patterns w)" and "distinctNames fs"
    and "scanDirectory fs dir w = Some (Inr r, w')"
  shows "high (bySeverity r) = filter (\<lambda>d. Detection.severity d = High) (detections r)
         \<and> medium (bySeverity r) = filter (\<lambda>d. Detection.severity d = Medium) (detections r)
         \<and> low (bySeverity r) = filter (\<lambda>d. Detection.severity d = Low) (detections r)
         \<and> length (high (bySeverity r)) + length (medium (bySeverity r))
             + length (low (bySeverity r)) = totalDetections r
         \<and> totalDetections r = length (detections r)
         \<and> (\<forall>d. count_list (high (bySeverity r)) d + count_list (medium (bySeverity r)) d
                  + count_list (low (bySeverity r)) d = count_list (detections r) d)
         \<and> concat (map snd (byFile r)) = detections r
         \<and> distinct (map fst (byFile r))
         \<and> (\<forall>g \<in> set (byFile r). snd g \<noteq> [] \<and> (\<forall>d \<in> set (snd g). file_path d = fst g))
         \<and> (\<forall>d \<in> set (detections r). \<exists>p \<in> set FLAKY_PATTERNS. pattern d = name p
                \<and> Detection.severity d = FlakyPattern.severity p)
         \<and> distinct (map name FLAKY_PATTERNS)
         \<and> (\<exists>files. findTestFiles (lookup fs dir) dir [] = Inr files
               \<and> scannedFiles r = length files
               \<and> list_all2
                    (\<lambda>d (f, c, p, m).
                       file_path d = f \<and> pattern d = name p
                       \<and> Detection.severity d = FlakyPattern.severity p
                       \<and> Detection.risk d = FlakyPattern.risk p
                       \<and> Detection.fix_text d = FlakyPattern.fix_text p
                       \<and> matchedText d = matched m
                       \<and> line d = Suc (newlinesBefore c (index m)))
                    (detections r) (firings fs files)
               \<and> (\<forall>(f, c, p, m) \<in> set (firings fs files).
                     f \<in> set files \<and> readFileSync fs f = Some c \<and> p \<in> set FLAKY_PATTERNS
                     \<and> m \<in> set (globalMatches (source (regex p)) c)
                     \<and> (FlakyPattern.severity p = High
                          \<or> \<not> hasMitigation (lookback c (index m)))))"
proof -
  from scanDirectory_result [OF assms] obtain files where
    f: "findTestFiles (lookup fs dir) dir [] = Inr files" "distinct files" "r = resultOf fs files"
    by blast
  let ?ds = "concat (map (fileDetections fs) files)"
  have sel: "detections r = ?ds" "totalDetections r = length ?ds"
    "high (bySeverity r) = filter (\<lambda>d. Detection.severity d = High) ?ds"
    "medium (bySeverity r) = filter (\<lambda>d. Detection.severity d = Medium) ?ds"
    "low (bySeverity r) = filter (\<lambda>d. Detection.severity d = Low) ?ds"
    "byFile r = map (\<lambda>f. (f, fileDetections fs f)) (filter (\<lambda>f. fileDetections fs f \<noteq> []) files)"
    unfolding f(3) resultOf_def Let_def by simp_all
  have sf: "scannedFiles r = length files" unfolding f(3) resultOf_def Let_def by simp
  have 1: "length (high (bySeverity r)) + length (medium (bySeverity r))
             + length (low (bySeverity r)) = totalDetections r"
    unfolding sel by (rule severity_partition_length)
  have 2: "\<forall>d. count_list (high (bySeverity r)) d + count_list (medium (bySeverity r)) d
                  + count_list (low (bySeverity r)) d = count_list (detections r) d"
    unfolding sel by (simp add: severity_partition_count)
  have 3: "concat (map snd (byFile r)) = detections r"
    unfolding sel by (rule concat_groups)
  have 4: "distinct (map fst (byFile r))"
    unfolding sel using f(2) by (simp add: comp_def distinct_map_filter)
  have 5: "\<forall>g \<in> set (byFile r). snd g \<noteq> [] \<and> (\<forall>d \<in> set (snd g). file_path d = fst g)"
    unfolding sel using fileDetections_member by auto
  have 6: "\<forall>d \<in> set (detections r). \<exists>p \<in> set FLAKY_PATTERNS. pattern d = name p
                \<and> Detection.severity d = FlakyPattern.severity p"
  proof
    fix d assume "d \<in> set (detections r)"
    then obtain f where "d \<in> set (fileDetections fs f)" unfolding sel by auto
    from fileDetections_member [OF this] show "\<exists>p \<in> set FLAKY_PATTERNS. pattern d = name p
                \<and> Detection.severity d = FlakyPattern.severity p" by blast
  qed
  have 7: "list_all2
                    (\<lambda>d (f, c, p, m).
                       file_path d = f \<and> pattern d = name p
                       \<and> Detection.severity d = FlakyPattern.severity p
                       \<and> Detection.risk d = FlakyPattern.risk p
                       \<and> Detection.fix_text d = FlakyPattern.fix_text p
                       \<and> matchedText d = matched m
                       \<and> line d = Suc (newlinesBefore c (index m)))
                    (detections r) (firings fs files)"
    unfolding sel(1) by (rule detections_firings)
  have 8: "\<forall>(f, c, p, m) \<in> set (firings fs files).
                     f \<in> set files \<and> readFileSync fs f = Some c \<and> p \<in> set FLAKY_PATTERNS
                     \<and> m \<in> set (globalMatches (source (regex p)) c)
                     \<and> (FlakyPattern.severity p = High
                          \<or> \<not> hasMitigation (lookback c (index m)))"
    using firings_member by blast
  have 9: "\<exists>files. findTestFiles (lookup fs dir) dir [] = Inr files
               \<and> scannedFiles r = length files
               \<and> list_all2
                    (\<lambda>d (f, c, p, m).
                       file_path d = f \<and> pattern d = name p
                       \<and> Detection.severity d = FlakyPattern.severity p
                       \<and> Detection.risk d = FlakyPattern.risk p
                       \<and> Detection.fix_text d = FlakyPattern.fix_text p
                       \<and> matchedText d = matched m
                       \<and> line d = Suc (newlinesBefore c (index m)))
                    (detections r) (firings fs files)
               \<and> (\<forall>(f, c, p, m) \<in> set (firings fs files).
                     f \<in> set files \<and> readFileSync fs f = Some c \<and> p \<in> set FLAKY_PATTERNS
                     \<and> m \<in> set (globalMatches (source (regex p)) c)
                     \<and> (FlakyPattern.severity p = High
                          \<or> \<not> hasMitigation (lookback c (index m))))"
    using f(1) sf 7 8 by blast
  show ?thesis using sel(1-5) 1 2 3 4 5 6 9 catalog_names_distinct by simp
qed

theorem scanResult_groupings_witness:
  "catalogState (patterns exampleWorld) \<and> distinctNames exampleFs
   \<and> (\<exists>w'. scanDirectory exampleFs [] exampleWorld = Some (Inr exampleResult, w'))
   \<and> concat (map snd (byFile exampleResult)) = detections exampleResult
   \<and> length (high (bySeverity exampleResult)) + length (medium (bySeverity exampleResult))
       + length (low (bySeverity exampleResult)) = totalDetections exampleResult
   \<and> list_all2
        (\<lambda>d (f, c, p, m). pattern d = name p
           \<and> Detection.severity d = FlakyPattern.severity p \<and> matchedText d = matched m)
        (detections exampleResult)
        [([js ''a.test.ts''], exampleContent, FLAKY_PATTERNS ! 0,
          \<lparr>index = 20, matched = js ''ttlSeconds=1''\<rparr>)]"
proof -
  from example_scanDirectory [OF catalogState_exampleWorld] obtain w' where
    s: "scanDirectory exampleFs [] exampleWorld = Some (Inr exampleResult, w')" by blast
  note g = scanResult_groupings [OF catalogState_exampleWorld example_distinctNames s]
  from g have a: "concat (map snd (byFile exampleResult)) = detections exampleResult"
    and b: "length (high (bySeverity exampleResult)) + length (medium (bySeverity exampleResult))
       + length (low (bySeverity exampleResult)) = totalDetections exampleResult"
    by blast+
  from g obtain files where
    fl: "findTestFiles (lookup exampleFs []) [] [] = Inr files"
    and la: "list_all2
                    (\<lambda>d (f, c, p, m).
                       file_path d = f \<and> pattern d = name p
                       \<and> Detection.severity d = FlakyPattern.severity p
                       \<and> Detection.risk d = FlakyPattern.risk p
                       \<and> Detection.fix_text d = FlakyPattern.fix_text p
                       \<and> matchedText d = matched m
                       \<and> line d = Suc (newlinesBefore c (index m)))
                    (detections exampleResult) (firings exampleFs files)"
    by blast
  from fl example_discovery have "Inr files = (Inr [[js ''a.test.ts'']] :: error + path list)"
    by (rule trans [OF sym])
  then have "files = [[js ''a.test.ts'']]" by (simp only: sum.inject)
  with la have la': "list_all2
                    (\<lambda>d (f, c, p, m).
                       file_path d = f \<and> pattern d = name p
                       \<and> Detection.severity d = FlakyPattern.severity p
                       \<and> Detection.risk d = FlakyPattern.risk p
                       \<and> Detection.fix_text d = FlakyPattern.fix_text p
                       \<and> matchedText d = matched m
                       \<and> line d = Suc (newlinesBefore c (index m)))
                    (detections exampleResult) (firings exampleFs [[js ''a.test.ts'']])"
    by simp
  have "list_all2
        (\<lambda>d (f, c, p, m). pattern d = name p
           \<and> Detection.severity d = FlakyPattern.severity p \<and> matchedText d = matched m)
        (detections exampleResult) (firings exampleFs [[js ''a.test.ts'']])"
    by (rule list_all2_mono [OF la']) auto
  then have "list_all2
        (\<lambda>d (f, c, p, m). pattern d = name p
           \<and> Detection.severity d = FlakyPattern.severity p \<and> matchedText d = matched m)
        (detections exampleResult)
        [([js ''a.test.ts''], exampleContent, FLAKY_PATTERNS ! 0,
          \<lparr>index = 20, matched = js ''ttlSeconds=1''\<rparr>)]"
    unfolding example_firings .
  with s a b catalogState_exampleWorld example_distinctNames show ?thesis by blast
qed

text \<open>
  Claim C3, as stated, fails: for the result without detections the Markdown report is not
  the congratulatory line alone. It has three lines with text: the heading, the line with
  the two counts, and the congratulatory line.
\<close>

theorem markdown_zero_is_not_one_line:
  "totalDetections emptyResult = 0
   \<and> formatAsMarkdown emptyResult \<noteq> allClear
   \<and> formatAsMarkdown emptyResult \<noteq> allClear @ js ''\<newline>''
   \<and> split_nl (formatAsMarkdown emptyResult) =
         [js ''## Flaky Test Analysis'', [],
          js ''Scanned **0** test files, found **0** potential flaky patterns.'', [],
          allClear, []]"
  by code_simp

text \<open>
  Claim C3, amended. For every result with \<open>totalDetections\<close> zero the Markdown report
  is the heading, the line with the number of scanned files and the count zero, and a
  single congratulatory line, each followed by an empty line or the end, and nothing else:
  no table, no section, no recommendation.
\<close>

theorem markdown_zero_report:
  assumes "totalDetections r = 0"
  shows "formatAsMarkdown r =
           js ''## Flaky Test Analysis\<newline>\<newline>Scanned **'' @ digits10 (scannedFiles r)
             @ js ''** test files, found **0** potential flaky patterns.\<newline>\<newline>''
             @ allClear @ js ''\<newline>''"
  using assms by (rule markdown_zero)

theorem markdown_zero_report_witness:
  "totalDetections (emptyResult\<lparr>scannedFiles := 12\<rparr>) = 0
   \<and> formatAsMarkdown (emptyResult\<lparr>scannedFiles := 12\<rparr>) =
         js ''## Flaky Test Analysis\<newline>\<newline>Scanned **12** test files, found **0** potential flaky patterns.\<newline>\<newline>No flaky patterns detected. Your tests look deterministic!\<newline>''"
proof -
  have z: "totalDetections (emptyResult\<lparr>scannedFiles := 12\<rparr>) = 0"
    by (simp add: emptyResult_def)
  have d: "digits10 12 = js ''12''" by code_simp
  from markdown_zero_report [OF z] z d show ?thesis
    by (simp add: emptyResult_def allClear_def js_def)
qed



text \<open>
  Claim C5. For every result, the text of the JSON report parses back to an object with, in
  this order, \<open>scannedFiles\<close>, \<open>totalDetections\<close>, a \<open>summary\<close> object with the three
  severity counts (the lengths of the three severity groups), and a \<open>detections\<close> array.
  The array has one object for each detection, in order, with exactly the properties
  \<open>file\<close>, \<open>line\<close>, \<open>pattern\<close>, \<open>matchedText\<close>, \<open>severity\<close>, \<open>risk\<close> and \<open>fix\<close>,
  each with the detection's own value, and without the context block; the severity texts
  tell the severities apart. The length of the array is \<open>totalDetections\<close> whenever that
  field is the length of the detection list, which it is in every result that
  \<open>scanDirectory\<close> returns.
\<close>

theorem json_report_roundtrip:
  "(\<exists>ds. JSON_parse (formatAsJson r) =
           Some (JObject
             [(js ''scannedFiles'', JNumber (scannedFiles r)),
              (js ''totalDetections'', JNumber (totalDetections r)),
              (js ''summary'',
                 JObject [(js ''high'', JNumber (length (high (bySeverity r)))),
                          (js ''medium'', JNumber (length (medium (bySeverity r)))),
                          (js ''low'', JNumber (length (low (bySeverity r))))]),
              (js ''detections'', JArray ds)])
         \<and> ds = map (\<lambda>d. JObject
                     [(js ''file'', JString (path_str (file_path d))),
                      (js ''line'', JNumber (line d)),
                      (js ''pattern'', JString (pattern d)),
                      (js ''matchedText'', JString (matchedText d)),
                      (js ''severity'', JString (severityString (Detection.severity d))),
                      (js ''risk'', JString (Detection.risk d)),
                      (js ''fix'', JString (Detection.fix_text d))]) (detections r)
         \<and> length ds = length (detections r)
         \<and> (totalDetections r = length (detections r) \<longrightarrow> length ds = totalDetections r))
   \<and> (\<forall>fs dir w w' r'. scanDirectory fs dir w = Some (Inr r', w') \<longrightarrow>
          totalDetections r' = length (detections r'))
   \<and> (\<forall>a b. severityString a = severityString b \<longrightarrow> a = b)"
proof -
  have "JSON_parse (formatAsJson r) = Some (jsonOfResult r)"
    unfolding formatAsJson_def by (rule JSON_roundtrip)
  then have "\<exists>ds. JSON_parse (formatAsJson r) =
           Some (JObject
             [(js ''scannedFiles'', JNumber (scannedFiles r)),
              (js ''totalDetections'', JNumber (totalDetections r)),
              (js ''summary'',
                 JObject [(js ''high'', JNumber (length (high (bySeverity r)))),
                          (js ''medium'', JNumber (length (medium (bySeverity r)))),
                          (js ''low'', JNumber (length (low (bySeverity r))))]),
              (js ''detections'', JArray ds)])
         \<and> ds = map (\<lambda>d. JObject
                     [(js ''file'', JString (path_str (file_path d))),
                      (js ''line'', JNumber (line d)),
                      (js ''pattern'', JString (pattern d)),
                      (js ''matchedText'', JString (matchedText d)),
                      (js ''severity'', JString (severityString (Detection.severity d))),
                      (js ''risk'', JString (Detection.risk d)),
                      (js ''fix'', JString (Detection.fix_text d))]) (detections r)
         \<and> length ds = length (detections r)
         \<and> (totalDetections r = length (detections r) \<longrightarrow> length ds = totalDetections r)"
    by (simp add: jsonOfResult_def jsonOfDetection_def [abs_def])
  moreover have "\<forall>fs dir w w' r'. scanDirectory fs dir w = Some (Inr r', w') \<longrightarrow>
          totalDetections r' = length (detections r')"
    using scanDirectory_total_is_length by blast
  moreover have "\<forall>a b. severityString a = severityString b \<longrightarrow> a = b"
    using severityString_inj by blast
  ultimately show ?thesis by blast
qed

theorem json_report_roundtrip_witness:
  "(\<exists>w'. scanDirectory exampleFs [] exampleWorld = Some (Inr exampleResult, w'))
   \<and> totalDetections exampleResult = length (detections exampleResult)
   \<and> JSON_parse (formatAsJson exampleResult) =
         Some (JObject
           [(js ''scannedFiles'', JNumber 1),
            (js ''totalDetections'', JNumber 1),
            (js ''summary'',
               JObject [(js ''high'', JNumber 1), (js ''medium'', JNumber 0),
                        (js ''low'', JNumber 0)]),
            (js ''detections'',
               JArray [JObject
                 [(js ''file'', JString (js ''a.test.ts'')),
                  (js ''line'', JNumber 3),
                  (js ''pattern'', JString (js ''1-second TTL'')),
                  (js ''matchedText'', JString (js ''ttlSeconds=1'')),
                  (js ''severity'', JString (js ''high'')),
                  (js ''risk'', JString (Detection.risk exampleDetection)),
                  (js ''fix'', JString (Detection.fix_text exampleDetection))]])])
   \<and> formatAsJson emptyResult =
     js ''{\<newline>  '' @ [34] @ js ''scannedFiles'' @ [34] @ js '': 0,\<newline>  '' @ [34]
       @ js ''totalDetections'' @ [34] @ js '': 0,\<newline>  '' @ [34] @ js ''summary'' @ [34]
       @ js '': {\<newline>    '' @ [34] @ js ''high'' @ [34] @ js '': 0,\<newline>    '' @ [34]
       @ js ''medium'' @ [34] @ js '': 0,\<newline>    '' @ [34] @ js ''low'' @ [34]
       @ js '': 0\<newline>  },\<newline>  '' @ [34] @ js ''detections'' @ [34] @ js '': []\<newline>}''"
proof -
  from example_scanDirectory [OF catalogState_exampleWorld] obtain w' where
    s: "scanDirectory exampleFs [] exampleWorld = Some (Inr exampleResult, w')" by blast
  note t = json_report_roundtrip [of exampleResult]
  from t s have l: "totalDetections exampleResult = length (detections exampleResult)" by blast
  from t obtain ds where
    p: "JSON_parse (formatAsJson exampleResult) =
           Some (JObject
             [(js ''scannedFiles'', JNumber (scannedFiles exampleResult)),
              (js ''totalDetections'', JNumber (totalDetections exampleResult)),
              (js ''summary'',
                 JObject [(js ''high'', JNumber (length (high (bySeverity exampleResult)))),
                          (js ''medium'', JNumber (length (medium (bySeverity exampleResult)))),
                          (js ''low'', JNumber (length (low (bySeverity exampleResult))))]),
              (js ''detections'', JArray ds)])"
    and d: "ds = map (\<lambda>d. JObject
                     [(js ''file'', JString (path_str (file_path d))),
                      (js ''line'', JNumber (line d)),
                      (js ''pattern'', JString (pattern d)),
                      (js ''matchedText'', JString (matchedText d)),
                      (js ''severity'', JString (severityString (Detection.severity d))),
                      (js ''risk'', JString (Detection.risk d)),
                      (js ''fix'', JString (Detection.fix_text d))]) (detections exampleResult)"
    by blast
  have f: "file_path exampleDetection = [js ''a.test.ts'']" "line exampleDetection = 3"
    "pattern exampleDetection = js ''1-second TTL''"
    "matchedText exampleDetection = js ''ttlSeconds=1''"
    "Detection.severity exampleDetection = High"
    by (simp_all add: exampleDetection_def)
  have h: "severityString High = js ''high''" by (simp add: severityString_def)
  from p d have "JSON_parse (formatAsJson exampleResult) =
         Some (JObject
           [(js ''scannedFiles'', JNumber 1),
            (js ''totalDetections'', JNumber 1),
            (js ''summary'',
               JObject [(js ''high'', JNumber 1), (js ''medium'', JNumber 0),
                        (js ''low'', JNumber 0)]),
            (js ''detections'',
               JArray [JObject
                 [(js ''file'', JString (js ''a.test.ts'')),
                  (js ''line'', JNumber 3),
                  (js ''pattern'', JString (js ''1-second TTL'')),
                  (js ''matchedText'', JString (js ''ttlSeconds=1'')),
                  (js ''severity'', JString (js ''high'')),
                  (js ''risk'', JString (Detection.risk exampleDetection)),
                  (js ''fix'', JString (Detection.fix_text exampleDetection))]])])"
    by (simp add: exampleResult_def f h)
  with s l example_json_text show ?thesis by blast
qed

end
